theory Spec2Isabelle
  imports Complex_Main "HOL-Library.Word"
begin

section \<open>Host platform\<close>

text \<open>
  The library runs on browser APIs. Only the part of them that the library's own state
  depends on is modelled:
  \<^item> the animation-frame scheduler (\<open>requestAnimationFrame\<close>, \<open>cancelAnimationFrame\<close>):
    a counter of handles and the list of scheduled callbacks. A handle is the incremented
    counter, so it is never 0;
  \<^item> \<open>window.devicePixelRatio\<close>;
  \<^item> the \<open>fftSize\<close> attribute of every analyser node, by node identity, since the
    coordinator and the renderers share one node by reference;
  \<^item> a chronological record of the externally visible effects (tracks stopped, audio
    context closed, frames requested and cancelled, callbacks of the embedding application).
  JavaScript numbers are idealised as exact reals. Pixels drawn to the canvas and colour
  strings are not modelled.
\<close>

type_synonym byte = "8 word"
type_synonym handle = nat
type_synonym node_id = nat
type_synonym chunk = "byte list"

record canvas =
  rect_width :: real
  rect_height :: real
  cv_width :: nat
  cv_height :: nat
  has_2d :: bool

text \<open>The closure \<open>() => this.draw(canvas, ctx)\<close>: the renderer it belongs to and the canvas.\<close>

record frame_callback =
  cb_owner :: nat
  cb_canvas :: canvas

datatype event =
    TrackStop nat
  | ContextClose nat
  | RequestFrame handle
  | CancelFrame handle
  | Drew nat
  | RecorderStart
  | RecorderStop
  | OnPermissionsFailed
  | OnRecorded "chunk list"

record host =
  frame_counter :: nat
  frame_callbacks :: "(handle \<times> frame_callback) list"
  devicePixelRatio :: real
  fft_sizes :: "node_id \<Rightarrow> nat"
  events :: "event list"

definition emit :: "event \<Rightarrow> host \<Rightarrow> host" where
  "emit e h = h\<lparr>events := events h @ [e]\<rparr>"

definition requestAnimationFrame :: "frame_callback \<Rightarrow> host \<Rightarrow> handle \<times> host" where
  "requestAnimationFrame cb h =
     (let k = Suc (frame_counter h)
      in (k, emit (RequestFrame k)
               (h\<lparr>frame_counter := k, frame_callbacks := frame_callbacks h @ [(k, cb)]\<rparr>)))"

definition cancelAnimationFrame :: "handle \<Rightarrow> host \<Rightarrow> host" where
  "cancelAnimationFrame k h =
     emit (CancelFrame k)
       (h\<lparr>frame_callbacks := filter (\<lambda>(j, cb). j \<noteq> k) (frame_callbacks h)\<rparr>)"

definition frequencyBinCount :: "host \<Rightarrow> node_id \<Rightarrow> nat" where
  "frequencyBinCount h a = fft_sizes h a div 2"

text \<open>
  \<open>analyser.getByteFrequencyData(array)\<close> with the node's current data \<open>src\<close>: the array
  keeps its length; elements beyond the data are left as they are.
\<close>

definition getByteFrequencyData :: "byte list \<Rightarrow> byte list \<Rightarrow> byte list" where
  "getByteFrequencyData src arr = take (length arr) src @ drop (length src) arr"

section \<open>Renderers\<close>

subsection \<open>Strategy state\<close>

record particle =
  px :: real
  py :: real
  psize :: real
  speed :: real
  angle :: real
  life :: nat
  maxLife :: real

text \<open>The values one call of \<open>createParticle\<close> reads from \<open>Math.random()\<close>.\<close>

record draws =
  r_angle :: real
  r_dist1 :: real
  r_dist2 :: real
  r_life :: real

datatype strategy =
    Bar (xPosition: real) (frameSkipTracker: nat) (barWidth: real)
  | Wave
  | Spectrum (smoothedArray: "real list")
  | Particle (particles: "particle list") (hue: nat)
      (particleCount: nat) (particleMaxSize: real) (particleMinSize: real)
      (particleLifespan: real) (particleBaseSpeed: real)

text \<open>The fields of \<open>BaseVisualizer\<close>, the object's identity, and the subclass's own state.\<close>

record visualizer =
  vid :: nat
  analyser :: "node_id option"
  animationFrameId :: "handle option"
  dataArray :: "byte list"
  fftSize :: nat
  dpr :: real
  strat :: strategy

text \<open>What one animation frame reads from outside: the node's data and the random draws.\<close>

record frame_input =
  freq_data :: "byte list"
  randoms :: "nat \<Rightarrow> draws"

subsection \<open>BaseVisualizer\<close>

text \<open>
  \<open>setAnalyser\<close>: the \<open>fftSize\<close> setter is taken to accept the configured value (the
  platform's setter throws on a value that is not a power of two between 32 and 32768).
\<close>

definition setAnalyser :: "node_id \<Rightarrow> host \<Rightarrow> visualizer \<Rightarrow> host \<times> visualizer" where
  "setAnalyser a h v =
     (let h' = h\<lparr>fft_sizes := (fft_sizes h)(a := fftSize v)\<rparr>
      in (h', v\<lparr>analyser := Some a, dataArray := replicate (frequencyBinCount h' a) 0\<rparr>))"

text \<open>\<open>if (this.animationFrameId)\<close> is a truthiness test: neither \<open>null\<close> nor 0 passes.\<close>

definition cleanup :: "host \<Rightarrow> visualizer \<Rightarrow> host \<times> visualizer" where
  "cleanup h v =
     (case animationFrameId v of
        None \<Rightarrow> (h, v)
      | Some k \<Rightarrow>
          if k \<noteq> 0 then (cancelAnimationFrame k h, v\<lparr>animationFrameId := None\<rparr>)
          else (h, v))"

text \<open>
  \<open>canvas.width\<close> and \<open>canvas.height\<close> are integer attributes: the product is truncated
  when it is stored.
\<close>

definition setupHighDPICanvas :: "host \<Rightarrow> visualizer \<Rightarrow> canvas \<Rightarrow> visualizer \<times> canvas" where
  "setupHighDPICanvas h v c =
     (let d = (if devicePixelRatio h = 0 then 1 else devicePixelRatio h)
      in (v\<lparr>dpr := d\<rparr>,
          c\<lparr>cv_width := nat \<lfloor>rect_width c * d\<rfloor>, cv_height := nat \<lfloor>rect_height c * d\<rfloor>\<rparr>))"

text \<open>The first lines every draw callback shares: return without an analyser, else reschedule.\<close>

definition reschedule :: "canvas \<Rightarrow> host \<Rightarrow> visualizer \<Rightarrow> host \<times> visualizer" where
  "reschedule c h v =
     (let (k, h') = requestAnimationFrame \<lparr>cb_owner = vid v, cb_canvas = c\<rparr> h
      in (h', v\<lparr>animationFrameId := Some k\<rparr>))"

definition displayWidth :: "visualizer \<Rightarrow> canvas \<Rightarrow> real" where
  "displayWidth v c = real (cv_width c) / dpr v"

definition displayHeight :: "visualizer \<Rightarrow> canvas \<Rightarrow> real" where
  "displayHeight v c = real (cv_height c) / dpr v"

subsection \<open>BarVisualizer\<close>

definition updateBars :: "canvas \<Rightarrow> frame_input \<Rightarrow> host \<Rightarrow> visualizer \<Rightarrow> host \<times> visualizer" where
  "updateBars c inp h v =
     (if analyser v = None then (h, v)
      else
        let (h1, v1) = reschedule c h v
        in case strat v1 of
             Bar x t bw \<Rightarrow>
               let t' = (t + 1) mod 10
               in if t' mod 2 \<noteq> 0 then (h1, v1\<lparr>strat := Bar x t' bw\<rparr>)
                  else
                    let v2 = v1\<lparr>dataArray := getByteFrequencyData (freq_data inp) (dataArray v1)\<rparr>;
                        x1 = x + 2 * bw;
                        x2 = (if x1 \<ge> displayWidth v2 c then 0 else x1)
                    in (h1, v2\<lparr>strat := Bar x2 t' bw\<rparr>)
           | _ \<Rightarrow> (h1, v1))"

definition bar_visualize ::
  "canvas option \<Rightarrow> frame_input \<Rightarrow> host \<Rightarrow> visualizer \<Rightarrow> bool \<times> host \<times> visualizer" where
  "bar_visualize co inp h v =
     (if analyser v = None \<or> co = None then (False, h, v)
      else
        let c = the co
        in if \<not> has_2d c then (False, h, v)
           else
             let (h1, v1) = cleanup h v;
                 (v2, c2) = setupHighDPICanvas h1 v1 c;
                 v3 = (case strat v2 of
                         Bar x t bw \<Rightarrow> v2\<lparr>strat := Bar 0 t bw\<rparr>
                       | _ \<Rightarrow> v2);
                 (h4, v4) = updateBars c2 inp h1 v3
             in (True, h4, v4))"

subsection \<open>WaveVisualizer\<close>

definition drawWave :: "canvas \<Rightarrow> frame_input \<Rightarrow> host \<Rightarrow> visualizer \<Rightarrow> host \<times> visualizer" where
  "drawWave c inp h v =
     (if analyser v = None then (h, v) else reschedule c h v)"

definition wave_visualize ::
  "canvas option \<Rightarrow> frame_input \<Rightarrow> host \<Rightarrow> visualizer \<Rightarrow> bool \<times> host \<times> visualizer" where
  "wave_visualize co inp h v =
     (if analyser v = None \<or> co = None then (False, h, v)
      else
        let c = the co
        in if \<not> has_2d c then (False, h, v)
           else
             let (h1, v1) = cleanup h v;
                 (v2, c2) = setupHighDPICanvas h1 v1 c;
                 (h3, v3) = drawWave c2 inp h1 v2
             in (True, h3, v3))"

subsection \<open>SpectrumVisualizer\<close>

text \<open>
  The smoothing step of \<open>drawSpectrum\<close>: a smoothed array of another length than the data
  is replaced by the data; otherwise every bin moves a fifth of the way to the new value.
  The values are exact here; \<open>smooth_stored\<close> below adds the rounding of the store.
\<close>

definition smooth :: "real list \<Rightarrow> byte list \<Rightarrow> real list" where
  "smooth sm da =
     (if length sm \<noteq> length da then map (\<lambda>b. real (unat b)) da
      else map2 (\<lambda>s b. s * (8 / 10) + real (unat b) * (2 / 10)) sm da)"

definition drawSpectrum :: "canvas \<Rightarrow> frame_input \<Rightarrow> host \<Rightarrow> visualizer \<Rightarrow> host \<times> visualizer" where
  "drawSpectrum c inp h v =
     (if analyser v = None then (h, v)
      else
        let (h1, v1) = reschedule c h v;
            v2 = v1\<lparr>dataArray := getByteFrequencyData (freq_data inp) (dataArray v1)\<rparr>
        in case strat v2 of
             Spectrum sm \<Rightarrow> (h1, v2\<lparr>strat := Spectrum (smooth sm (dataArray v2))\<rparr>)
           | _ \<Rightarrow> (h1, v2))"

definition spectrum_visualize ::
  "canvas option \<Rightarrow> frame_input \<Rightarrow> host \<Rightarrow> visualizer \<Rightarrow> bool \<times> host \<times> visualizer" where
  "spectrum_visualize co inp h v =
     (if analyser v = None \<or> co = None then (False, h, v)
      else
        let c = the co
        in if \<not> has_2d c then (False, h, v)
           else
             let (h1, v1) = cleanup h v;
                 (v2, c2) = setupHighDPICanvas h1 v1 c;
                 v3 = (case strat v2 of
                         Spectrum sm \<Rightarrow>
                           v2\<lparr>strat := Spectrum (replicate (frequencyBinCount h1 (the (analyser v2))) 0)\<rparr>
                       | _ \<Rightarrow> v2);
                 (h4, v4) = drawSpectrum c2 inp h1 v3
             in (True, h4, v4))"

subsection \<open>ParticleVisualizer\<close>

text \<open>
  The colour of a particle and the band values of \<open>analyzeFrequencyRanges\<close>, which only
  feed colour strings, are left out. With an empty data array the source's average is not a
  number and no particle is spawned; here the quotient is 0, with the same effect.
\<close>

definition createParticle ::
  "real \<Rightarrow> real \<Rightarrow> real \<Rightarrow> real \<Rightarrow> real \<Rightarrow> real \<Rightarrow> real \<Rightarrow> draws \<Rightarrow> particle" where
  "createParticle dw dh minSize maxSize lifespan baseSpeed intensity r =
     (let centerX = dw / 2;
          centerY = dh / 2;
          ang = r_angle r * pi * 2;
          distance = r_dist1 r * r_dist2 r * (dw / 3)
      in \<lparr>px = centerX + cos ang * distance,
          py = centerY + sin ang * distance,
          psize = minSize + (maxSize - minSize) * intensity,
          speed = baseSpeed * (1 + intensity) * (1 + distance / (dw / 2)),
          angle = ang,
          life = 0,
          maxLife = lifespan + r_life r * lifespan * (1 / 2)\<rparr>)"

text \<open>One pass of the first loop of \<open>updateParticles\<close> over a single particle: move and age.\<close>

definition advance :: "particle \<Rightarrow> particle" where
  "advance p = p\<lparr>px := px p + cos (angle p) * speed p,
                 py := py p + sin (angle p) * speed p,
                 life := life p + 1\<rparr>"

definition expired :: "real \<Rightarrow> real \<Rightarrow> particle \<Rightarrow> bool" where
  "expired dw dh p \<longleftrightarrow>
     px p < - psize p \<or> px p > dw + psize p \<or>
     py p < - psize p \<or> py p > dh + psize p \<or>
     real (life p) > maxLife p"

text \<open>
  The first loop, as written: the index runs from the last element down to 0; an expired
  particle is spliced out, the others are updated in place.
\<close>

fun sweep :: "real \<Rightarrow> real \<Rightarrow> nat \<Rightarrow> particle list \<Rightarrow> particle list" where
  "sweep dw dh 0 ps = ps"
| "sweep dw dh (Suc i) ps =
     (let p = advance (ps ! i)
      in sweep dw dh i (if expired dw dh p then take i ps @ drop (Suc i) ps else ps[i := p]))"

text \<open>The second loop: \<open>n\<close> iterations, each adding a particle while there is room.\<close>

fun spawn :: "nat \<Rightarrow> nat \<Rightarrow> (draws \<Rightarrow> particle) \<Rightarrow> (nat \<Rightarrow> draws) \<Rightarrow> nat \<Rightarrow> particle list \<Rightarrow> particle list" where
  "spawn cap 0 mk rnd j ps = ps"
| "spawn cap (Suc n) mk rnd j ps =
     (if length ps < cap then spawn cap n mk rnd (Suc j) (ps @ [mk (rnd j)])
      else spawn cap n mk rnd (Suc j) ps)"

definition updateParticles ::
  "real \<Rightarrow> real \<Rightarrow> real \<Rightarrow> (nat \<Rightarrow> draws) \<Rightarrow> strategy \<Rightarrow> strategy" where
  "updateParticles dw dh intensity rnd st =
     (case st of
        Particle ps hu cnt maxSize minSize lifespan baseSpeed \<Rightarrow>
          let ps1 = sweep dw dh (length ps) ps;
              particlesToAdd = nat \<lfloor>real cnt * intensity * (2 / 10)\<rfloor>;
              ps2 = spawn cnt particlesToAdd
                      (createParticle dw dh minSize maxSize lifespan baseSpeed intensity) rnd 0 ps1
          in Particle ps2 hu cnt maxSize minSize lifespan baseSpeed
      | _ \<Rightarrow> st)"

definition animateParticles :: "canvas \<Rightarrow> frame_input \<Rightarrow> host \<Rightarrow> visualizer \<Rightarrow> host \<times> visualizer" where
  "animateParticles c inp h v =
     (if analyser v = None then (h, v)
      else
        let (h1, v1) = reschedule c h v;
            v2 = v1\<lparr>dataArray := getByteFrequencyData (freq_data inp) (dataArray v1)\<rparr>;
            average = real (sum_list (map unat (dataArray v2))) / real (length (dataArray v2));
            intensity = average / 255;
            st1 = (case strat v2 of
                     Particle ps hu cnt maxSize minSize lifespan baseSpeed \<Rightarrow>
                       Particle ps ((hu + 1) mod 360) cnt maxSize minSize lifespan baseSpeed
                   | st \<Rightarrow> st)
        in (h1, v2\<lparr>strat := updateParticles (displayWidth v2 c) (displayHeight v2 c)
                                intensity (randoms inp) st1\<rparr>))"

definition particle_visualize ::
  "canvas option \<Rightarrow> frame_input \<Rightarrow> host \<Rightarrow> visualizer \<Rightarrow> bool \<times> host \<times> visualizer" where
  "particle_visualize co inp h v =
     (if analyser v = None \<or> co = None then (False, h, v)
      else
        let c = the co
        in if \<not> has_2d c then (False, h, v)
           else
             let (h1, v1) = cleanup h v;
                 (v2, c2) = setupHighDPICanvas h1 v1 c;
                 v3 = (case strat v2 of
                         Particle ps hu cnt maxSize minSize lifespan baseSpeed \<Rightarrow>
                           v2\<lparr>strat := Particle [] 0 cnt maxSize minSize lifespan baseSpeed\<rparr>
                       | _ \<Rightarrow> v2);
                 (h4, v4) = animateParticles c2 inp h1 v3
             in (True, h4, v4))"

subsection \<open>Dispatch\<close>

text \<open>The abstract method \<open>visualize\<close> and the callback each subclass schedules.\<close>

definition visualize ::
  "canvas option \<Rightarrow> frame_input \<Rightarrow> host \<Rightarrow> visualizer \<Rightarrow> bool \<times> host \<times> visualizer" where
  "visualize co inp h v =
     (case strat v of
        Bar x t bw \<Rightarrow> bar_visualize co inp h v
      | Wave \<Rightarrow> wave_visualize co inp h v
      | Spectrum sm \<Rightarrow> spectrum_visualize co inp h v
      | Particle ps hu cnt maxSize minSize lifespan baseSpeed \<Rightarrow> particle_visualize co inp h v)"

definition draw :: "canvas \<Rightarrow> frame_input \<Rightarrow> host \<Rightarrow> visualizer \<Rightarrow> host \<times> visualizer" where
  "draw c inp h v =
     (case strat v of
        Bar x t bw \<Rightarrow> updateBars c inp h v
      | Wave \<Rightarrow> drawWave c inp h v
      | Spectrum sm \<Rightarrow> drawSpectrum c inp h v
      | Particle ps hu cnt maxSize minSize lifespan baseSpeed \<Rightarrow> animateParticles c inp h v)"

text \<open>
  One display frame, as far as one renderer is concerned: the host takes the callbacks
  scheduled so far off its list and invokes, in order, those that belong to the renderer.
  Callbacks scheduled meanwhile wait for the next frame.
\<close>

fun invoke_all ::
  "(handle \<times> frame_callback) list \<Rightarrow> frame_input \<Rightarrow> host \<Rightarrow> visualizer \<Rightarrow> host \<times> visualizer" where
  "invoke_all [] inp h v = (h, v)"
| "invoke_all ((k, cb) # cbs) inp h v =
     (let (h1, v1) = draw (cb_canvas cb) inp (emit (Drew (vid v)) h) v
      in invoke_all cbs inp h1 v1)"

definition run_frame :: "frame_input \<Rightarrow> host \<Rightarrow> visualizer \<Rightarrow> host \<times> visualizer" where
  "run_frame inp h v =
     (let mine = filter (\<lambda>(k, cb). cb_owner cb = vid v) (frame_callbacks h);
          others = filter (\<lambda>(k, cb). cb_owner cb \<noteq> vid v) (frame_callbacks h)
      in invoke_all mine inp (h\<lparr>frame_callbacks := others\<rparr>) v)"

text \<open>
  What can happen to one renderer: its public methods, and a display frame. A run is a
  list of such steps.
\<close>

datatype vop =
    Visualize "canvas option" frame_input
  | Cleanup
  | SetAnalyser node_id
  | Frame frame_input

fun vstep :: "vop \<Rightarrow> host \<Rightarrow> visualizer \<Rightarrow> host \<times> visualizer" where
  "vstep (Visualize co inp) h v = snd (visualize co inp h v)"
| "vstep Cleanup h v = cleanup h v"
| "vstep (SetAnalyser a) h v = setAnalyser a h v"
| "vstep (Frame inp) h v = run_frame inp h v"

fun run_ops :: "vop list \<Rightarrow> host \<Rightarrow> visualizer \<Rightarrow> host \<times> visualizer" where
  "run_ops [] h v = (h, v)"
| "run_ops (op # ops) h v = (let (h1, v1) = vstep op h v in run_ops ops h1 v1)"

text \<open>The callbacks of a renderer that are scheduled, and the draws it has made.\<close>

definition scheduled :: "host \<Rightarrow> visualizer \<Rightarrow> handle list" where
  "scheduled h v = map fst (filter (\<lambda>(k, cb). cb_owner cb = vid v) (frame_callbacks h))"

definition draws_of :: "host \<Rightarrow> visualizer \<Rightarrow> nat" where
  "draws_of h v = length (filter (\<lambda>e. e = Drew (vid v)) (events h))"

text \<open>
  The scheduler's list is well formed (handles are distinct, not 0 and not beyond the counter),
  and a callback of the renderer is scheduled only under the handle the renderer holds.
\<close>

definition loop_inv :: "host \<Rightarrow> visualizer \<Rightarrow> bool" where
  "loop_inv h v \<longleftrightarrow>
     distinct (map fst (frame_callbacks h)) \<and>
     list_all (\<lambda>(k, cb). k \<noteq> 0 \<and> k \<le> frame_counter h \<and>
                 (cb_owner cb \<noteq> vid v \<or> animationFrameId v = Some k)) (frame_callbacks h)"

text \<open>Several frames of the particle simulation on a surface of fixed size.\<close>

fun run_ticks :: "real \<Rightarrow> real \<Rightarrow> (real \<times> (nat \<Rightarrow> draws)) list \<Rightarrow> strategy \<Rightarrow> strategy" where
  "run_ticks dw dh [] st = st"
| "run_ticks dw dh ((intensity, rnd) # ins) st =
     run_ticks dw dh ins (updateParticles dw dh intensity rnd st)"

definition in_bounds :: "real \<Rightarrow> real \<Rightarrow> particle \<Rightarrow> bool" where
  "in_bounds dw dh p \<longleftrightarrow>
     - psize p \<le> px p \<and> px p \<le> dw + psize p \<and> - psize p \<le> py p \<and> py p \<le> dh + psize p"

text \<open>
  A particle is still in the set after \<open>k\<close> frames when none of the \<open>k\<close> passes of the
  first loop found it expired.
\<close>

fun survives :: "real \<Rightarrow> real \<Rightarrow> nat \<Rightarrow> particle \<Rightarrow> bool" where
  "survives dw dh 0 p = True"
| "survives dw dh (Suc k) p = (\<not> expired dw dh (advance p) \<and> survives dw dh k (advance p))"

section \<open>Session coordinator\<close>

text \<open>
  The fields of \<open>Soniq\<close>. A stream is the list of its tracks, the recorder and the analyser
  are references. The audio context keeps its state, as \<open>cleanup\<close> closes it but keeps
  the reference. The callbacks \<open>onRecorded\<close> and \<open>onPermissionsFailed\<close> belong to the
  embedding application: an invocation is recorded as an event, and they are taken not to
  call back into the coordinator. \<open>setup\<close> is modelled without interleaving at its
  \<open>await\<close>. The methods are those of \<open>core/soniq.ts\<close>.
\<close>

datatype context_state = Suspended | Running | Closed

record audio_context =
  ctx_id :: nat
  ctx_state :: context_state

record soniq =
  recorder :: "nat option"
  audioContext :: "audio_context option"
  sq_analyser :: "node_id option"
  chunks :: "chunk list"
  isRecording :: bool
  stream :: "nat list option"
  sq_fftSize :: nat
  visualizer :: visualizer

definition soniq_cleanup :: "host \<Rightarrow> soniq \<Rightarrow> host \<times> soniq" where
  "soniq_cleanup h s =
     (let (h1, v1) = cleanup h (visualizer s);
          h2 = (case stream s of
                  None \<Rightarrow> h1
                | Some ts \<Rightarrow> foldl (\<lambda>hh t. emit (TrackStop t) hh) h1 ts);
          (h3, cx) = (case audioContext s of
                        None \<Rightarrow> (h2, None)
                      | Some c \<Rightarrow> (emit (ContextClose (ctx_id c)) h2, Some (c\<lparr>ctx_state := Closed\<rparr>)))
      in (h3, s\<lparr>visualizer := v1, audioContext := cx, stream := None, recorder := None,
                sq_analyser := None, chunks := [], isRecording := False\<rparr>))"

text \<open>
  The platform calls of \<open>setup\<close> can each throw (or, for \<open>getUserMedia\<close>, reject);
  which one does, if any, is an input, as are the objects the platform hands out.
\<close>

datatype setup_fault =
    NoFault
  | GetUserMediaFails
  | AudioContextFails
  | CreateAnalyserFails
  | FftSizeFails
  | CreateSourceFails
  | SetAnalyserFails
  | MediaRecorderFails

record grant =
  g_tracks :: "nat list"
  g_context :: nat
  g_analyser :: node_id
  g_recorder :: nat

text \<open>The \<open>catch\<close> block of \<open>setup\<close>.\<close>

definition setup_catch :: "host \<Rightarrow> soniq \<Rightarrow> bool \<times> host \<times> soniq" where
  "setup_catch h s =
     (let h1 = emit OnPermissionsFailed h;
          (h2, s2) = soniq_cleanup h1 s
      in (False, h2, s2))"

definition soniq_setup :: "setup_fault \<Rightarrow> grant \<Rightarrow> host \<Rightarrow> soniq \<Rightarrow> bool \<times> host \<times> soniq" where
  "soniq_setup f g h s =
     (let (h0, s0) = soniq_cleanup h s
      in if f = GetUserMediaFails then setup_catch h0 s0
         else
           let s1 = s0\<lparr>stream := Some (g_tracks g)\<rparr>
           in if f = AudioContextFails then setup_catch h0 s1
              else
                let s2 = s1\<lparr>audioContext := Some \<lparr>ctx_id = g_context g, ctx_state = Running\<rparr>\<rparr>
                in if f = CreateAnalyserFails then setup_catch h0 s2
                   else
                     let s3 = s2\<lparr>sq_analyser := Some (g_analyser g)\<rparr>
                     in if f = FftSizeFails then setup_catch h0 s3
                        else
                          let h4 = h0\<lparr>fft_sizes := (fft_sizes h0)(g_analyser g := sq_fftSize s3)\<rparr>
                          in if f = CreateSourceFails then setup_catch h4 s3
                             else if f = SetAnalyserFails
                             then setup_catch h4
                                    (s3\<lparr>visualizer := (visualizer s3)\<lparr>analyser := Some (g_analyser g)\<rparr>\<rparr>)
                             else
                               let (h5, v5) = setAnalyser (g_analyser g) h4 (visualizer s3);
                                   s5 = s3\<lparr>visualizer := v5\<rparr>
                               in if f = MediaRecorderFails then setup_catch h5 s5
                                  else (True, h5, s5\<lparr>recorder := Some (g_recorder g)\<rparr>))"

text \<open>
  \<open>record\<close>, \<open>stop\<close> and \<open>cancel\<close> call the recorder inside \<open>try\<close>; whether the call
  throws is the input \<open>throws\<close>.
\<close>

definition soniq_record :: "bool \<Rightarrow> host \<Rightarrow> soniq \<Rightarrow> bool \<times> host \<times> soniq" where
  "soniq_record throws h s =
     (if recorder s = None then (False, h, s)
      else if throws then (False, h, s)
      else (True, emit RecorderStart h, s\<lparr>isRecording := True\<rparr>))"

definition stop :: "bool \<Rightarrow> host \<Rightarrow> soniq \<Rightarrow> bool \<times> host \<times> soniq" where
  "stop throws h s =
     (if recorder s = None \<or> \<not> isRecording s then (False, h, s)
      else if throws then (False, h, s)
      else (True, emit RecorderStop h, s))"

definition cancel :: "bool \<Rightarrow> host \<Rightarrow> soniq \<Rightarrow> bool \<times> host \<times> soniq" where
  "cancel throws h s =
     (if recorder s = None \<or> \<not> isRecording s then (False, h, s)
      else
        let s1 = s\<lparr>isRecording := False\<rparr>
        in if throws then (False, h, s1)
           else let (h2, s2) = soniq_cleanup (emit RecorderStop h) s1 in (True, h2, s2))"

text \<open>The two handlers \<open>setup\<close> installs on the recorder.\<close>

definition ondataavailable :: "chunk \<Rightarrow> soniq \<Rightarrow> soniq" where
  "ondataavailable c s = (if isRecording s then s\<lparr>chunks := chunks s @ [c]\<rparr> else s)"

definition onstop :: "host \<Rightarrow> soniq \<Rightarrow> host \<times> soniq" where
  "onstop h s =
     (if \<not> isRecording s then (h, s)
      else soniq_cleanup (emit (OnRecorded (chunks s)) h) s)"

definition soniq_visualize ::
  "canvas option \<Rightarrow> frame_input \<Rightarrow> host \<Rightarrow> soniq \<Rightarrow> bool \<times> host \<times> soniq" where
  "soniq_visualize co inp h s =
     (let (ok, h1, v1) = visualize co inp h (visualizer s)
      in (ok, h1, s\<lparr>visualizer := v1\<rparr>))"

text \<open>
  \<open>setVisualizer\<close>: the renderer that is replaced stays with the caller and is returned as
  the third component. When the argument is the current renderer itself, it is the object
  as \<open>cleanup\<close> left it that is installed.
\<close>

definition setVisualizer :: "visualizer \<Rightarrow> host \<Rightarrow> soniq \<Rightarrow> host \<times> soniq \<times> visualizer" where
  "setVisualizer nv h s =
     (let (h1, old) = cleanup h (visualizer s);
          nv1 = (if vid nv = vid old then old else nv)
      in case sq_analyser s of
           None \<Rightarrow> (h1, s\<lparr>visualizer := nv1\<rparr>, old)
         | Some a \<Rightarrow> let (h2, nv2) = setAnalyser a h1 nv1 in (h2, s\<lparr>visualizer := nv2\<rparr>, old))"

definition destroy :: "host \<Rightarrow> soniq \<Rightarrow> host \<times> soniq" where
  "destroy h s = soniq_cleanup h s"

text \<open>
  The states of the session, read off the guards of \<open>stop\<close> and \<open>cancel\<close>: without a
  recorder the session is idle; with one it is recording when the flag is set.
\<close>

datatype phase = Idle | Ready | Recording

definition phase :: "soniq \<Rightarrow> phase" where
  "phase s = (if recorder s = None then Idle else if isRecording s then Recording else Ready)"

section \<open>Construction and sample values\<close>

text \<open>The constructors: \<open>options.fftSize || 64\<close> and the initial field values.\<close>

definition new_visualizer :: "nat \<Rightarrow> nat option \<Rightarrow> strategy \<Rightarrow> visualizer" where
  "new_visualizer i fft st =
     \<lparr>vid = i, analyser = None, animationFrameId = None, dataArray = [],
      fftSize = (case fft of None \<Rightarrow> 64 | Some n \<Rightarrow> if n = 0 then 64 else n),
      dpr = 1, strat = st\<rparr>"

definition new_soniq :: "nat option \<Rightarrow> visualizer \<Rightarrow> soniq" where
  "new_soniq fft v =
     \<lparr>recorder = None, audioContext = None, sq_analyser = None, chunks = [],
      isRecording = False, stream = None,
      sq_fftSize = (case fft of None \<Rightarrow> 64 | Some n \<Rightarrow> if n = 0 then 64 else n),
      visualizer = v\<rparr>"

definition fresh_host :: host where
  "fresh_host =
     \<lparr>frame_counter = 0, frame_callbacks = [], devicePixelRatio = 2,
      fft_sizes = (\<lambda>a. 2048), events = []\<rparr>"

definition sample_canvas :: canvas where
  "sample_canvas =
     \<lparr>rect_width = 300, rect_height = 150, cv_width = 300, cv_height = 150, has_2d = True\<rparr>"

definition no_draws :: "nat \<Rightarrow> draws" where
  "no_draws j = \<lparr>r_angle = 0, r_dist1 = 0, r_dist2 = 0, r_life = 0\<rparr>"

definition quiet_frame :: frame_input where
  "quiet_frame = \<lparr>freq_data = replicate 16 0, randoms = no_draws\<rparr>"

definition sample_grant :: grant where
  "sample_grant = \<lparr>g_tracks = [7], g_context = 3, g_analyser = 5, g_recorder = 9\<rparr>"

definition sample_ops :: "vop list" where
  "sample_ops = [SetAnalyser 5, Visualize (Some sample_canvas) quiet_frame,
                 Visualize (Some sample_canvas) quiet_frame, Frame quiet_frame]"

definition sample_soniq :: soniq where
  "sample_soniq = new_soniq None (new_visualizer 1 None (Bar 0 0 2))"

text \<open>A session after a successful \<open>setup\<close>, and the same session after \<open>record\<close>.\<close>

definition ready_host :: host where
  "ready_host = fst (snd (soniq_setup NoFault sample_grant fresh_host sample_soniq))"

definition ready_soniq :: soniq where
  "ready_soniq = snd (snd (soniq_setup NoFault sample_grant fresh_host sample_soniq))"

definition recording_host :: host where
  "recording_host = fst (snd (soniq_record False ready_host ready_soniq))"

definition recording_soniq :: soniq where
  "recording_soniq = snd (snd (soniq_record False ready_host ready_soniq))"

text \<open>The recording session with one chunk delivered, and after \<open>stop\<close> has returned.\<close>

definition one_chunk_soniq :: soniq where
  "one_chunk_soniq = ondataavailable [1] recording_soniq"

definition stopping_host :: host where
  "stopping_host = fst (snd (stop False recording_host one_chunk_soniq))"

definition stopping_soniq :: soniq where
  "stopping_soniq = snd (snd (stop False recording_host one_chunk_soniq))"

text \<open>The session after \<open>setup\<close> with its visualization started on the sample canvas.\<close>

definition visualizing_host :: host where
  "visualizing_host = fst (snd (soniq_visualize (Some sample_canvas) quiet_frame ready_host ready_soniq))"

definition visualizing_soniq :: soniq where
  "visualizing_soniq = snd (snd (soniq_visualize (Some sample_canvas) quiet_frame ready_host ready_soniq))"

text \<open>
  An event that releases a resource, and the order a report after the teardown would show:
  no release after the failure callback.
\<close>

fun is_release :: "event \<Rightarrow> bool" where
  "is_release (TrackStop t) = True"
| "is_release (ContextClose c) = True"
| "is_release e = False"

definition teardown_precedes_report :: "event list \<Rightarrow> bool" where
  "teardown_precedes_report es \<longleftrightarrow>
     list_all (\<lambda>e. \<not> is_release e) (dropWhile (\<lambda>e. e \<noteq> OnPermissionsFailed) es)"

text \<open>
  A spectrum renderer configured with \<open>fftSize\<close> 32 and attached to node 5, a frame in
  which every bin reads 100, and the readings of the smoothed array.
\<close>

definition spectrum_sample :: visualizer where
  "spectrum_sample = snd (setAnalyser 5 fresh_host (new_visualizer 2 (Some 32) (Spectrum [])))"

definition spectrum_host :: host where
  "spectrum_host = fst (setAnalyser 5 fresh_host (new_visualizer 2 (Some 32) (Spectrum [])))"

definition loud_frame :: frame_input where
  "loud_frame = \<lparr>freq_data = replicate 16 100, randoms = no_draws\<rparr>"

definition smoothed :: "visualizer \<Rightarrow> real list" where
  "smoothed v = (case strat v of Spectrum sm \<Rightarrow> sm | _ \<Rightarrow> [])"

definition in_byte_range :: "real \<Rightarrow> bool" where
  "in_byte_range x \<longleftrightarrow> 0 \<le> x \<and> x \<le> 255"

text \<open>The smoothed array after \<open>k\<close> frames that all read the data \<open>da\<close>.\<close>

definition smooth_frames :: "nat \<Rightarrow> byte list \<Rightarrow> real list \<Rightarrow> real list" where
  "smooth_frames k da sm = ((\<lambda>a. smooth a da) ^^ k) sm"

text \<open>A particle at rest in the middle of a 300 by 150 surface, with a lifespan of 3 frames.\<close>

definition sample_particle :: particle where
  "sample_particle =
     \<lparr>px = 150, py = 75, psize = 2, speed = 0, angle = 0, life = 0, maxLife = 3\<rparr>"

text \<open>
  The smoothed array is a \<open>Float32Array\<close>: every value is rounded as it is stored.
  \<open>smooth_stored\<close> is the smoothing step with that conversion \<open>rnd\<close> made explicit (the
  evaluation of the expression in double precision before the store is taken as exact), and
  \<open>stored_frames\<close> iterates it over frames that all read the same data. What is used of the
  conversion: it is monotone, it leaves a value it produced unchanged, and it leaves every
  byte value unchanged (integers up to 255 are single-precision values).
\<close>

definition smooth_stored :: "(real \<Rightarrow> real) \<Rightarrow> real list \<Rightarrow> byte list \<Rightarrow> real list" where
  "smooth_stored rnd sm da =
     (if length sm \<noteq> length da then map (\<lambda>b. rnd (real (unat b))) da
      else map2 (\<lambda>s b. rnd (s * (8 / 10) + real (unat b) * (2 / 10))) sm da)"




text \<open>A renderer that holds no handle \<open>cleanup\<close> would cancel.\<close>

definition idle_loop :: "visualizer \<Rightarrow> bool" where
  "idle_loop v \<longleftrightarrow> animationFrameId v = None \<or> animationFrameId v = Some 0"

section \<open>Starting a renderer\<close>

lemma bar_visualize_ok:
  "bar_visualize co inp h v = (ok, h', v') \<Longrightarrow>
     (ok \<longleftrightarrow> analyser v \<noteq> None \<and> (\<exists>c. co = Some c \<and> has_2d c)) \<and> (\<not> ok \<longrightarrow> h' = h \<and> v' = v)"
  by (auto simp: bar_visualize_def Let_def split: if_splits prod.splits)

lemma wave_visualize_ok:
  "wave_visualize co inp h v = (ok, h', v') \<Longrightarrow>
     (ok \<longleftrightarrow> analyser v \<noteq> None \<and> (\<exists>c. co = Some c \<and> has_2d c)) \<and> (\<not> ok \<longrightarrow> h' = h \<and> v' = v)"
  by (auto simp: wave_visualize_def Let_def split: if_splits prod.splits)

lemma spectrum_visualize_ok:
  "spectrum_visualize co inp h v = (ok, h', v') \<Longrightarrow>
     (ok \<longleftrightarrow> analyser v \<noteq> None \<and> (\<exists>c. co = Some c \<and> has_2d c)) \<and> (\<not> ok \<longrightarrow> h' = h \<and> v' = v)"
  by (auto simp: spectrum_visualize_def Let_def split: if_splits prod.splits)

lemma particle_visualize_ok:
  "particle_visualize co inp h v = (ok, h', v') \<Longrightarrow>
     (ok \<longleftrightarrow> analyser v \<noteq> None \<and> (\<exists>c. co = Some c \<and> has_2d c)) \<and> (\<not> ok \<longrightarrow> h' = h \<and> v' = v)"
  by (auto simp: particle_visualize_def Let_def split: if_splits prod.splits)

lemma visualize_guard:
  "visualize co inp h v = (ok, h', v') \<Longrightarrow>
     (ok \<longleftrightarrow> analyser v \<noteq> None \<and> (\<exists>c. co = Some c \<and> has_2d c)) \<and> (\<not> ok \<longrightarrow> h' = h \<and> v' = v)"
  unfolding visualize_def
  by (cases "strat v")
     (auto dest: bar_visualize_ok wave_visualize_ok spectrum_visualize_ok particle_visualize_ok)

text \<open>
  C7. For each of the four strategies, \<open>visualize\<close> returns true exactly when an analyser
  is attached and the canvas exists and yields a 2D context; when it returns false, the
  host (and with it the list of scheduled callbacks) and the renderer are as before.
\<close>

theorem visualize_true_iff:
  "visualize co inp h v = (ok, h', v') \<Longrightarrow>
     (ok \<longleftrightarrow> analyser v \<noteq> None \<and> (\<exists>c. co = Some c \<and> has_2d c)) \<and> (\<not> ok \<longrightarrow> h' = h \<and> v' = v)"
proof (cases "strat v")
  case (Bar x t bw)
  assume "visualize co inp h v = (ok, h', v')"
  with Bar have "bar_visualize co inp h v = (ok, h', v')" by (simp add: visualize_def)
  then show ?thesis by (rule bar_visualize_ok)
next
  case Wave
  assume "visualize co inp h v = (ok, h', v')"
  with Wave have "wave_visualize co inp h v = (ok, h', v')" by (simp add: visualize_def)
  then show ?thesis by (rule wave_visualize_ok)
next
  case (Spectrum sm)
  assume "visualize co inp h v = (ok, h', v')"
  with Spectrum have "spectrum_visualize co inp h v = (ok, h', v')" by (simp add: visualize_def)
  then show ?thesis by (rule spectrum_visualize_ok)
next
  case (Particle ps hu cnt mx mn ls bs)
  assume "visualize co inp h v = (ok, h', v')"
  with Particle have "particle_visualize co inp h v = (ok, h', v')" by (simp add: visualize_def)
  then show ?thesis by (rule particle_visualize_ok)
qed

theorem visualize_true_iff_witness:
  "fst (visualize (Some sample_canvas) quiet_frame fresh_host
          ((new_visualizer 1 None (Spectrum []))\<lparr>analyser := Some 5\<rparr>))"
proof -
  let ?v = "(new_visualizer 1 None (Spectrum []))\<lparr>analyser := Some 5\<rparr>"
  obtain ok h' v' where r: "visualize (Some sample_canvas) quiet_frame fresh_host ?v = (ok, h', v')"
    by (cases "visualize (Some sample_canvas) quiet_frame fresh_host ?v") blast
  have "analyser ?v \<noteq> None" by simp
  moreover have "\<exists>c. Some sample_canvas = Some c \<and> has_2d c" by (simp add: sample_canvas_def)
  ultimately have ok using visualize_true_iff [OF r] by blast
  with r show ?thesis by simp
qed

section \<open>The animation loop\<close>

lemma loop_inv_cong:
  "vid v' = vid v \<Longrightarrow> animationFrameId v' = animationFrameId v \<Longrightarrow>
   frame_callbacks h' = frame_callbacks h \<Longrightarrow> frame_counter h' = frame_counter h \<Longrightarrow>
   loop_inv h' v' = loop_inv h v"
  by (simp add: loop_inv_def)

lemma scheduled_cong:
  "vid v' = vid v \<Longrightarrow> frame_callbacks h' = frame_callbacks h \<Longrightarrow> scheduled h' v' = scheduled h v"
  by (simp add: scheduled_def)

lemma scheduled_le_one:
  assumes "loop_inv h v" shows "length (scheduled h v) \<le> 1"
proof -
  let ?own = "filter (\<lambda>(k, cb). cb_owner cb = vid v) (frame_callbacks h)"
  have d: "distinct (map fst ?own)"
    using assms by (simp add: loop_inv_def distinct_map_filter)
  have e: "\<And>x. x \<in> set (map fst ?own) \<Longrightarrow> animationFrameId v = Some x"
    using assms by (auto simp: loop_inv_def list_all_iff)
  show ?thesis
  proof (cases "map fst ?own")
    case Nil
    then show ?thesis by (simp add: scheduled_def)
  next
    case (Cons a as)
    show ?thesis
    proof (cases as)
      case Nil
      with Cons show ?thesis by (simp add: scheduled_def)
    next
      case (Cons b bs)
      with \<open>map fst ?own = a # as\<close> have m: "map fst ?own = a # b # bs" by simp
      from e[of a] e[of b] m have "a = b" by simp
      with d m show ?thesis by simp
    qed
  qed
qed

lemma scheduled_handle:
  "loop_inv h v \<Longrightarrow> k \<in> set (scheduled h v) \<Longrightarrow> animationFrameId v = Some k \<and> k \<noteq> 0"
  by (auto simp: loop_inv_def scheduled_def list_all_iff)

lemma cleanup_events:
  assumes "loop_inv h v" and "cleanup h v = (h', v')" and "k \<in> set (scheduled h v)"
  shows "events h' = events h @ [CancelFrame k]"
  using scheduled_handle[OF assms(1,3)] assms(2)
  by (auto simp: cleanup_def cancelAnimationFrame_def emit_def)

lemma reschedule_inv:
  assumes "loop_inv h v" and "scheduled h v = []" and "reschedule c h v = (h', v')"
  shows "loop_inv h' v' \<and> scheduled h' v' = [Suc (frame_counter h)] \<and> vid v' = vid v
         \<and> analyser v' = analyser v \<and> frame_counter h' = Suc (frame_counter h)
         \<and> events h' = events h @ [RequestFrame (Suc (frame_counter h))]"
proof -
  let ?k = "Suc (frame_counter h)"
  let ?cbs = "frame_callbacks h"
  have h': "h' = emit (RequestFrame ?k)
               (h\<lparr>frame_counter := ?k,
                  frame_callbacks := ?cbs @ [(?k, \<lparr>cb_owner = vid v, cb_canvas = c\<rparr>)]\<rparr>)"
    and v': "v' = v\<lparr>animationFrameId := Some ?k\<rparr>"
    using assms(3) by (auto simp: reschedule_def requestAnimationFrame_def Let_def)
  have bound: "\<And>k cb. (k, cb) \<in> set ?cbs \<Longrightarrow> k \<noteq> 0 \<and> k \<le> frame_counter h"
    using assms(1) by (auto simp: loop_inv_def list_all_iff)
  have foreign: "\<And>k cb. (k, cb) \<in> set ?cbs \<Longrightarrow> cb_owner cb \<noteq> vid v"
    using assms(2) by (auto simp: scheduled_def filter_empty_conv)
  have fresh: "?k \<notin> fst ` set ?cbs"
    using bound by fastforce
  have d: "distinct (map fst ?cbs)"
    using assms(1) by (simp add: loop_inv_def)
  have 1: "loop_inv h' v'"
    unfolding loop_inv_def h' v' emit_def
    using d fresh bound foreign by (auto simp: list_all_iff le_SucI)
  have "filter (\<lambda>(k, cb). cb_owner cb = vid v) ?cbs = []"
    using foreign by (auto simp: filter_empty_conv)
  then have 2: "scheduled h' v' = [?k]"
    unfolding scheduled_def h' v' emit_def by simp
  show ?thesis using 1 2 by (simp add: h' v' emit_def)
qed

lemma draw_shape:
  assumes "draw c inp h v = (h', v')"
  shows "(analyser v = None \<and> h' = h \<and> v' = v) \<or>
         (analyser v \<noteq> None \<and>
          (\<exists>v1. reschedule c h v = (h', v1) \<and> vid v' = vid v1 \<and>
                animationFrameId v' = animationFrameId v1 \<and> analyser v' = analyser v1))"
proof (cases "analyser v = None")
  case True
  with assms show ?thesis
    by (auto simp: draw_def updateBars_def drawWave_def drawSpectrum_def animateParticles_def
        split: strategy.splits)
next
  case False
  obtain h1 v1 where r: "reschedule c h v = (h1, v1)" by (cases "reschedule c h v") blast
  have s: "strat v1 = strat v" using r by (auto simp: reschedule_def split: prod.splits)
  from assms False r s have "h' = h1 \<and> vid v' = vid v1 \<and>
                animationFrameId v' = animationFrameId v1 \<and> analyser v' = analyser v1"
    by (auto simp: draw_def updateBars_def drawWave_def drawSpectrum_def animateParticles_def
        Let_def split: strategy.splits if_splits)
  with False r show ?thesis by auto
qed


lemma draw_inv:
  assumes "loop_inv h v" and "scheduled h v = []" and "draw c inp h v = (h', v')"
  shows "loop_inv h' v' \<and> vid v' = vid v \<and> analyser v' = analyser v
         \<and> (analyser v = None \<longrightarrow> h' = h \<and> v' = v)
         \<and> (analyser v \<noteq> None \<longrightarrow>
               scheduled h' v' = [Suc (frame_counter h)] \<and>
               events h' = events h @ [RequestFrame (Suc (frame_counter h))])"
proof -
  from draw_shape[OF assms(3)] show ?thesis
  proof
    assume "analyser v = None \<and> h' = h \<and> v' = v"
    with assms(1) show ?thesis by simp
  next
    assume a: "analyser v \<noteq> None \<and>
          (\<exists>v1. reschedule c h v = (h', v1) \<and> vid v' = vid v1 \<and>
                animationFrameId v' = animationFrameId v1 \<and> analyser v' = analyser v1)"
    then obtain v1 where r: "reschedule c h v = (h', v1)" and e: "vid v' = vid v1"
      "animationFrameId v' = animationFrameId v1" "analyser v' = analyser v1" by blast
    note i = reschedule_inv[OF assms(1,2) r]
    have "loop_inv h' v' = loop_inv h' v1" using e by (intro loop_inv_cong) simp_all
    moreover have "scheduled h' v' = scheduled h' v1" using e by (intro scheduled_cong) simp_all
    ultimately show ?thesis using i e a by auto
  qed
qed

lemma setupHighDPICanvas_keeps:
  "setupHighDPICanvas h v c = (v2, c2) \<Longrightarrow>
     vid v2 = vid v \<and> animationFrameId v2 = animationFrameId v \<and> analyser v2 = analyser v
     \<and> strat v2 = strat v \<and> dataArray v2 = dataArray v"
  by (auto simp: setupHighDPICanvas_def Let_def)

lemma cleanup_keeps:
  "cleanup h v = (h1, v1) \<Longrightarrow>
     vid v1 = vid v \<and> analyser v1 = analyser v \<and> strat v1 = strat v \<and> dataArray v1 = dataArray v
     \<and> fft_sizes h1 = fft_sizes h \<and> frame_counter h1 = frame_counter h"
  by (auto simp: cleanup_def cancelAnimationFrame_def emit_def split: option.splits if_splits)

lemma visualize_shape:
  assumes "visualize co inp h v = (True, h', v')" and c: "cleanup h v = (h1, v1)"
  shows "\<exists>c2 v3. vid v3 = vid v1 \<and> animationFrameId v3 = animationFrameId v1 \<and>
           analyser v3 = analyser v1 \<and> draw c2 inp h1 v3 = (h', v')"
proof -
  from visualize_guard[OF assms(1)] obtain c where
    g: "analyser v \<noteq> None" "co = Some c" "has_2d c" by auto
  obtain v2 c2 where s: "setupHighDPICanvas h1 v1 c = (v2, c2)"
    by (cases "setupHighDPICanvas h1 v1 c") blast
  note k = setupHighDPICanvas_keeps[OF s] cleanup_keeps[OF c]
  show ?thesis
  proof (cases "strat v")
    case (Bar x t bw)
    let ?v3 = "v2\<lparr>strat := Bar 0 t bw\<rparr>"
    have "draw c2 inp h1 ?v3 = (h', v')"
      using assms(1) g c s k Bar by (simp add: visualize_def bar_visualize_def draw_def)
    then show ?thesis using k by (intro exI[where x=c2] exI[where x="?v3"]) simp
  next
    case Wave
    have "draw c2 inp h1 v2 = (h', v')"
      using assms(1) g c s k Wave by (simp add: visualize_def wave_visualize_def draw_def)
    then show ?thesis using k by (intro exI[where x=c2] exI[where x=v2]) simp
  next
    case (Spectrum sm)
    let ?v3 = "v2\<lparr>strat := Spectrum (replicate (frequencyBinCount h1 (the (analyser v2))) 0)\<rparr>"
    have "draw c2 inp h1 ?v3 = (h', v')"
      using assms(1) g c s k Spectrum by (simp add: visualize_def spectrum_visualize_def draw_def)
    then show ?thesis using k by (intro exI[where x=c2] exI[where x="?v3"]) simp
  next
    case (Particle ps hu cnt mx mn ls bs)
    let ?v3 = "v2\<lparr>strat := Particle [] 0 cnt mx mn ls bs\<rparr>"
    have "draw c2 inp h1 ?v3 = (h', v')"
      using assms(1) g c s k Particle by (simp add: visualize_def particle_visualize_def draw_def)
    then show ?thesis using k by (intro exI[where x=c2] exI[where x="?v3"]) simp
  qed
qed


lemma cleanup_inv:
  assumes "loop_inv h v" and "cleanup h v = (h', v')"
  shows "loop_inv h' v' \<and> scheduled h' v' = []"
  using assms
  by (auto simp: cleanup_def loop_inv_def scheduled_def cancelAnimationFrame_def emit_def
      list_all_iff distinct_map_filter filter_empty_conv
      split: option.splits if_splits)

lemma visualize_inv:
  assumes "loop_inv h v" and "visualize co inp h v = (ok, h', v')"
  shows "loop_inv h' v' \<and> vid v' = vid v
         \<and> (ok \<longrightarrow> scheduled h' v' = [Suc (frame_counter h)]
                \<and> (\<forall>k \<in> set (scheduled h v).
                      events h' = events h @ [CancelFrame k, RequestFrame (Suc (frame_counter h))]))"
proof (cases ok)
  case False
  with visualize_guard[OF assms(2)] assms(1) show ?thesis by simp
next
  case True
  obtain h1 v1 where c: "cleanup h v = (h1, v1)" by (cases "cleanup h v") blast
  from visualize_guard[OF assms(2)] True have a: "analyser v \<noteq> None" by simp
  have vt: "visualize co inp h v = (True, h', v')" using assms(2) True by simp
  from visualize_shape[OF vt c] obtain c2 v3 where
    e: "vid v3 = vid v1" "animationFrameId v3 = animationFrameId v1" "analyser v3 = analyser v1"
    and d: "draw c2 inp h1 v3 = (h', v')" by blast
  note ci = cleanup_inv[OF assms(1) c] and ck = cleanup_keeps[OF c]
  have "loop_inv h1 v3 = loop_inv h1 v1" using e by (intro loop_inv_cong) simp_all
  moreover have "scheduled h1 v3 = scheduled h1 v1" using e by (intro scheduled_cong) simp_all
  ultimately have i3: "loop_inv h1 v3" "scheduled h1 v3 = []" using ci by simp_all
  note di = draw_inv[OF i3 d]
  have a3: "analyser v3 \<noteq> None" using a e ck by simp
  have ev: "\<forall>k \<in> set (scheduled h v).
      events h' = events h @ [CancelFrame k, RequestFrame (Suc (frame_counter h))]"
    using cleanup_events[OF assms(1) c] di a3 ck by simp
  show ?thesis using di a3 e ck ev True by simp
qed

lemma setAnalyser_inv:
  assumes "loop_inv h v" and "setAnalyser a h v = (h', v')"
  shows "loop_inv h' v' \<and> vid v' = vid v \<and> events h' = events h"
  using assms by (auto simp: setAnalyser_def Let_def loop_inv_def)

lemma invoke_all_one:
  "invoke_all [(k, cb)] inp h v = draw (cb_canvas cb) inp (emit (Drew (vid v)) h) v"
  by (simp split: prod.splits)

lemma run_frame_inv:
  assumes "loop_inv h v" and "run_frame inp h v = (h', v')"
  shows "loop_inv h' v' \<and> vid v' = vid v \<and> draws_of h' v' \<le> draws_of h v + 1"
proof -
  let ?mine = "filter (\<lambda>(k, cb). cb_owner cb = vid v) (frame_callbacks h)"
  let ?h0 = "h\<lparr>frame_callbacks := filter (\<lambda>(k, cb). cb_owner cb \<noteq> vid v) (frame_callbacks h)\<rparr>"
  have r: "invoke_all ?mine inp ?h0 v = (h', v')"
    using assms(2) by (simp add: run_frame_def Let_def)
  have i0: "loop_inv ?h0 v"
    using assms(1) by (auto simp: loop_inv_def list_all_iff distinct_map_filter)
  have s0: "scheduled ?h0 v = []"
    by (auto simp: scheduled_def filter_empty_conv)
  have "length ?mine \<le> 1" using scheduled_le_one[OF assms(1)] by (simp add: scheduled_def)
  then consider "?mine = []" | k cb where "?mine = [(k, cb)]"
    by (cases ?mine; cases "tl ?mine") auto
  then show ?thesis
  proof cases
    case 1
    with r i0 show ?thesis by (auto simp: draws_of_def)
  next
    case 2
    let ?h1 = "emit (Drew (vid v)) ?h0"
    have d: "draw (cb_canvas cb) inp ?h1 v = (h', v')" using r 2 by (simp only: invoke_all_one)
    have i1: "loop_inv ?h1 v" using i0 by (simp add: loop_inv_def emit_def)
    have s1: "scheduled ?h1 v = []" using s0 by (simp add: scheduled_def emit_def)
    note di = draw_inv[OF i1 s1 d]
    have "events h' = events ?h1 \<or> events h' = events ?h1 @ [RequestFrame (Suc (frame_counter ?h1))]"
      using di by (cases "analyser v = None") auto
    then have "draws_of h' v' \<le> draws_of h v + 1"
      using di by (auto simp: draws_of_def emit_def)
    with di show ?thesis by simp
  qed
qed

lemma vstep_inv:
  assumes "loop_inv h v" and "vstep op h v = (h', v')"
  shows "loop_inv h' v' \<and> vid v' = vid v"
proof (cases op)
  case (Visualize co inp)
  obtain ok where "visualize co inp h v = (ok, h', v')"
    using assms(2) Visualize by (cases "visualize co inp h v") auto
  from visualize_inv[OF assms(1) this] show ?thesis by simp
next
  case Cleanup
  with assms cleanup_inv[of h v h' v'] cleanup_keeps[of h v h' v'] show ?thesis by simp
next
  case (SetAnalyser a)
  with assms setAnalyser_inv[of h v a h' v'] show ?thesis by simp
next
  case (Frame inp)
  with assms run_frame_inv[of h v inp h' v'] show ?thesis by simp
qed

lemma run_ops_inv:
  "loop_inv h v \<Longrightarrow> run_ops ops h v = (h', v') \<Longrightarrow> loop_inv h' v' \<and> vid v' = vid v"
proof (induction ops arbitrary: h v)
  case Nil
  then show ?case by simp
next
  case (Cons op ops)
  obtain h1 v1 where s: "vstep op h v = (h1, v1)" by (cases "vstep op h v") blast
  from vstep_inv[OF Cons.prems(1) s] Cons.IH[of h1 v1] Cons.prems(2) s show ?case by simp
qed


text \<open>
  C6. Whatever sequence of \<open>visualize\<close>, \<open>cleanup\<close>, \<open>setAnalyser\<close> calls and display
  frames a renderer goes through, at most one of its callbacks is scheduled; a display frame
  makes it draw at most once; and a \<open>visualize\<close> that succeeds while a callback \<open>k\<close> is
  scheduled first cancels \<open>k\<close> and then requests the one new callback.
\<close>

theorem one_animation_loop:
  assumes "loop_inv h v" and "run_ops ops h v = (h', v')"
  shows "length (scheduled h' v') \<le> 1
         \<and> (\<forall>inp h2 v2. run_frame inp h' v' = (h2, v2) \<longrightarrow> draws_of h2 v2 \<le> draws_of h' v' + 1)
         \<and> (\<forall>co inp h2 v2. visualize co inp h' v' = (True, h2, v2) \<longrightarrow>
               scheduled h2 v2 = [Suc (frame_counter h')] \<and>
               (\<forall>k \<in> set (scheduled h' v').
                  events h2 = events h' @ [CancelFrame k, RequestFrame (Suc (frame_counter h'))]))"
proof -
  have i: "loop_inv h' v'" using run_ops_inv[OF assms] by simp
  show ?thesis
    using scheduled_le_one[OF i] run_frame_inv[OF i] visualize_inv[OF i] by blast
qed

lemma sample_run:
  "scheduled (fst (run_ops sample_ops fresh_host (new_visualizer 1 None Wave)))
             (snd (run_ops sample_ops fresh_host (new_visualizer 1 None Wave))) = [3]"
  by (simp add: sample_ops_def fresh_host_def new_visualizer_def sample_canvas_def quiet_frame_def
      setAnalyser_def visualize_def wave_visualize_def cleanup_def setupHighDPICanvas_def
      drawWave_def reschedule_def requestAnimationFrame_def cancelAnimationFrame_def emit_def
      run_frame_def draw_def scheduled_def Let_def frequencyBinCount_def)

theorem one_animation_loop_witness:
  "loop_inv fresh_host (new_visualizer 1 None Wave) \<and>
   scheduled (fst (run_ops sample_ops fresh_host (new_visualizer 1 None Wave)))
             (snd (run_ops sample_ops fresh_host (new_visualizer 1 None Wave))) = [3] \<and>
   length (scheduled (fst (run_ops sample_ops fresh_host (new_visualizer 1 None Wave)))
             (snd (run_ops sample_ops fresh_host (new_visualizer 1 None Wave)))) \<le> 1"
proof -
  have i: "loop_inv fresh_host (new_visualizer 1 None Wave)"
    by (simp add: loop_inv_def fresh_host_def)
  have r: "run_ops sample_ops fresh_host (new_visualizer 1 None Wave) =
      (fst (run_ops sample_ops fresh_host (new_visualizer 1 None Wave)),
       snd (run_ops sample_ops fresh_host (new_visualizer 1 None Wave)))" by simp
  from one_animation_loop[OF i r] i sample_run show ?thesis by blast
qed

section \<open>The session coordinator\<close>

lemmas sample_defs = sample_soniq_def new_soniq_def new_visualizer_def fresh_host_def
  sample_grant_def ready_host_def ready_soniq_def recording_host_def recording_soniq_def

lemmas soniq_defs = soniq_setup_def setup_catch_def soniq_cleanup_def cleanup_def setAnalyser_def
  emit_def frequencyBinCount_def soniq_record_def stop_def cancel_def onstop_def
  ondataavailable_def destroy_def Let_def cancelAnimationFrame_def

lemma ready_soniq_eq:
  "ready_soniq = \<lparr>recorder = Some 9, audioContext = Some \<lparr>ctx_id = 3, ctx_state = Running\<rparr>,
      sq_analyser = Some 5, chunks = [], isRecording = False, stream = Some [7], sq_fftSize = 64,
      visualizer = \<lparr>vid = 1, analyser = Some 5, animationFrameId = None,
                     dataArray = replicate 32 0, fftSize = 64, dpr = 1, strat = Bar 0 0 2\<rparr>\<rparr>"
  by (simp add: sample_defs soniq_defs)

lemma ready_host_events: "events ready_host = []"
  by (simp add: sample_defs soniq_defs)

text \<open>
  C5. A teardown releases the tracks, closes the audio context, stops the renderer, empties
  the chunk buffer and clears the flag, and a second one leaves the state as it is. It is
  not without effect, though: \<open>cleanup\<close> resets every reference but the one to the audio
  context, so the second teardown of a session that had been set up calls \<open>close\<close> on the
  closed context once more.
\<close>

theorem destroy_twice_closes_context_twice:
  "events (fst (destroy (fst (destroy ready_host ready_soniq)) (snd (destroy ready_host ready_soniq))))
     = [TrackStop 7, ContextClose 3, ContextClose 3]"
  by (simp add: ready_soniq_eq ready_host_events soniq_defs)

text \<open>
  C1, as stated, fails: when the construction of the recorder throws, the failure callback
  is invoked first and the tracks are stopped and the context is closed after it.
\<close>

theorem setup_reports_before_teardown:
  "\<not> fst (soniq_setup MediaRecorderFails sample_grant fresh_host sample_soniq) \<and>
   events (fst (snd (soniq_setup MediaRecorderFails sample_grant fresh_host sample_soniq)))
     = [OnPermissionsFailed, TrackStop 7, ContextClose 3] \<and>
   \<not> teardown_precedes_report
        (events (fst (snd (soniq_setup MediaRecorderFails sample_grant fresh_host sample_soniq))))"
  by (simp add: sample_defs soniq_defs teardown_precedes_report_def)


lemma emit_fields:
  "events (emit e h) = events h @ [e]" "frame_callbacks (emit e h) = frame_callbacks h"
  "frame_counter (emit e h) = frame_counter h" "fft_sizes (emit e h) = fft_sizes h"
  by (simp_all add: emit_def)

lemma foldl_emit_events:
  "events (foldl (\<lambda>hh t. emit (TrackStop t) hh) h ts) = events h @ map TrackStop ts"
  by (induction ts arbitrary: h) (simp_all add: emit_fields)

lemma foldl_emit_frames:
  "frame_callbacks (foldl (\<lambda>hh t. emit (TrackStop t) hh) h ts) = frame_callbacks h \<and>
   frame_counter (foldl (\<lambda>hh t. emit (TrackStop t) hh) h ts) = frame_counter h \<and>
   fft_sizes (foldl (\<lambda>hh t. emit (TrackStop t) hh) h ts) = fft_sizes h"
  by (induction ts arbitrary: h) (simp_all add: emit_fields)

lemma cleanup_idle_loop: "cleanup h v = (h', v') \<Longrightarrow> idle_loop v'"
  by (auto simp: cleanup_def idle_loop_def split: option.splits if_splits)

lemma cleanup_when_idle: "idle_loop v \<Longrightarrow> cleanup h v = (h, v)"
  by (auto simp: cleanup_def idle_loop_def)

text \<open>What one teardown does, for a session whose renderer has no handle to cancel.\<close>

lemma soniq_cleanup_idle:
  assumes "idle_loop (visualizer s)" and "soniq_cleanup h s = (h', s')"
  shows "events h' = events h
           @ (case stream s of None \<Rightarrow> [] | Some ts \<Rightarrow> map TrackStop ts)
           @ (case audioContext s of None \<Rightarrow> [] | Some c \<Rightarrow> [ContextClose (ctx_id c)])"
    and "stream s' = None" and "recorder s' = None" and "sq_analyser s' = None"
    and "chunks s' = []" and "\<not> isRecording s'"
    and "audioContext s' = map_option (\<lambda>c. c\<lparr>ctx_state := Closed\<rparr>) (audioContext s)"
    and "visualizer s' = visualizer s" and "sq_fftSize s' = sq_fftSize s"
  using assms
  by (auto simp: soniq_cleanup_def cleanup_when_idle emit_fields foldl_emit_events Let_def
      split: option.splits)

lemma soniq_cleanup_state:
  assumes "soniq_cleanup h s = (h', s')"
  shows "stream s' = None \<and> recorder s' = None \<and> sq_analyser s' = None \<and> chunks s' = []
         \<and> \<not> isRecording s' \<and> idle_loop (visualizer s')
         \<and> audioContext s' = map_option (\<lambda>c. c\<lparr>ctx_state := Closed\<rparr>) (audioContext s)"
  using assms
  by (auto simp: soniq_cleanup_def Let_def dest: cleanup_idle_loop split: option.splits prod.splits)


lemma setup_catch_idle:
  assumes "idle_loop (visualizer s)" and "setup_catch h s = (ok, h', s')"
  shows "\<not> ok \<and> stream s' = None \<and> recorder s' = None \<and> sq_analyser s' = None
         \<and> chunks s' = [] \<and> \<not> isRecording s'
         \<and> audioContext s' = map_option (\<lambda>c. c\<lparr>ctx_state := Closed\<rparr>) (audioContext s)
         \<and> events h' = events h @ OnPermissionsFailed
              # (case stream s of None \<Rightarrow> [] | Some ts \<Rightarrow> map TrackStop ts)
              @ (case audioContext s of None \<Rightarrow> [] | Some c \<Rightarrow> [ContextClose (ctx_id c)])"
proof -
  obtain h2 s2 where c: "soniq_cleanup (emit OnPermissionsFailed h) s = (h2, s2)"
    by (cases "soniq_cleanup (emit OnPermissionsFailed h) s") blast
  with assms(2) have e: "ok = False" "h' = h2" "s' = s2"
    by (simp_all add: setup_catch_def Let_def)
  from soniq_cleanup_idle[OF assms(1) c] show ?thesis
    unfolding e by (simp add: emit_fields)
qed

lemma setAnalyser_idle: "setAnalyser a h v = (h', v') \<Longrightarrow> idle_loop v' = idle_loop v \<and> events h' = events h"
  by (auto simp: setAnalyser_def Let_def idle_loop_def)

text \<open>
  C1, amended. Whichever step of \<open>setup\<close> fails, \<open>setup\<close> returns false; it invokes
  \<open>onPermissionsFailed\<close> and then tears the session down: the tracks acquired in this run
  are stopped and the audio context, if there is one, is closed, in this order after the
  callback. Afterwards there is no stream, recorder or analyser, the chunk buffer is empty,
  the flag is clear, and an audio context still referenced is closed.
\<close>

theorem setup_failure_reports_then_tears_down:
  assumes "f \<noteq> NoFault"
    and "soniq_cleanup h s = (h0, s0)"
    and "soniq_setup f g h s = (ok, h', s')"
  shows "\<not> ok \<and> stream s' = None \<and> recorder s' = None \<and> sq_analyser s' = None
         \<and> chunks s' = [] \<and> \<not> isRecording s'
         \<and> (\<forall>c. audioContext s' = Some c \<longrightarrow> ctx_state c = Closed)
         \<and> events h' = events h0 @ OnPermissionsFailed
              # map TrackStop (if f = GetUserMediaFails then [] else g_tracks g)
              @ (case audioContext s' of None \<Rightarrow> [] | Some c \<Rightarrow> [ContextClose (ctx_id c)])"
proof -
  note st = soniq_cleanup_state[OF assms(2)]
  have idle: "idle_loop (visualizer s0)" using st by simp
  obtain h5 v5 where sa: "setAnalyser (g_analyser g) (h0\<lparr>fft_sizes := (fft_sizes h0)(g_analyser g := sq_fftSize s0)\<rparr>) (visualizer s0) = (h5, v5)"
    by (cases "setAnalyser (g_analyser g) (h0\<lparr>fft_sizes := (fft_sizes h0)(g_analyser g := sq_fftSize s0)\<rparr>) (visualizer s0)") blast
  note sai = setAnalyser_idle[OF sa]
  have idle2: "idle_loop ((visualizer s0)\<lparr>analyser := Some (g_analyser g)\<rparr>)"
    using idle by (simp add: idle_loop_def)
  show ?thesis
  proof (cases f)
    case NoFault
    with assms(1) show ?thesis by simp
  next
    case GetUserMediaFails
    with assms(2,3) have "setup_catch h0 s0 = (ok, h', s')" by (simp add: soniq_setup_def)
    from setup_catch_idle[OF idle this] st GetUserMediaFails show ?thesis
      by (auto split: option.splits)
  next
    case AudioContextFails
    let ?s = "s0\<lparr>stream := Some (g_tracks g)\<rparr>"
    from AudioContextFails assms(2,3) have "setup_catch h0 ?s = (ok, h', s')"
      by (simp add: soniq_setup_def)
    from setup_catch_idle[OF _ this] idle st AudioContextFails show ?thesis
      by (auto split: option.splits)
  next
    case CreateAnalyserFails
    let ?s = "s0\<lparr>stream := Some (g_tracks g),
                 audioContext := Some \<lparr>ctx_id = g_context g, ctx_state = Running\<rparr>\<rparr>"
    from CreateAnalyserFails assms(2,3) have "setup_catch h0 ?s = (ok, h', s')"
      by (simp add: soniq_setup_def)
    from setup_catch_idle[OF _ this] idle CreateAnalyserFails show ?thesis
      by (auto split: option.splits)
  next
    case FftSizeFails
    let ?s = "s0\<lparr>stream := Some (g_tracks g),
                 audioContext := Some \<lparr>ctx_id = g_context g, ctx_state = Running\<rparr>,
                 sq_analyser := Some (g_analyser g)\<rparr>"
    from FftSizeFails assms(2,3) have "setup_catch h0 ?s = (ok, h', s')"
      by (simp add: soniq_setup_def)
    from setup_catch_idle[OF _ this] idle FftSizeFails show ?thesis
      by (auto split: option.splits)
  next
    case CreateSourceFails
    let ?s = "s0\<lparr>stream := Some (g_tracks g),
                 audioContext := Some \<lparr>ctx_id = g_context g, ctx_state = Running\<rparr>,
                 sq_analyser := Some (g_analyser g)\<rparr>"
    let ?h = "h0\<lparr>fft_sizes := (fft_sizes h0)(g_analyser g := sq_fftSize s0)\<rparr>"
    from CreateSourceFails assms(2,3) have "setup_catch ?h ?s = (ok, h', s')"
      by (simp add: soniq_setup_def)
    from setup_catch_idle[OF _ this] idle CreateSourceFails show ?thesis
      by (auto split: option.splits)
  next
    case SetAnalyserFails
    let ?s = "s0\<lparr>stream := Some (g_tracks g),
                 audioContext := Some \<lparr>ctx_id = g_context g, ctx_state = Running\<rparr>,
                 sq_analyser := Some (g_analyser g),
                 visualizer := (visualizer s0)\<lparr>analyser := Some (g_analyser g)\<rparr>\<rparr>"
    let ?h = "h0\<lparr>fft_sizes := (fft_sizes h0)(g_analyser g := sq_fftSize s0)\<rparr>"
    from SetAnalyserFails assms(2,3) have "setup_catch ?h ?s = (ok, h', s')"
      by (simp add: soniq_setup_def)
    from setup_catch_idle[OF _ this] idle2 SetAnalyserFails show ?thesis
      by (auto split: option.splits)
  next
    case MediaRecorderFails
    let ?s = "s0\<lparr>stream := Some (g_tracks g),
                 audioContext := Some \<lparr>ctx_id = g_context g, ctx_state = Running\<rparr>,
                 sq_analyser := Some (g_analyser g), visualizer := v5\<rparr>"
    from MediaRecorderFails assms(2,3) sa have "setup_catch h5 ?s = (ok, h', s')"
      by (simp add: soniq_setup_def)
    from setup_catch_idle[OF _ this] idle sai MediaRecorderFails show ?thesis
      by (auto split: option.splits)
  qed
qed


lemma recording_soniq_eq:
  "recording_soniq = ready_soniq\<lparr>isRecording := True\<rparr>"
  "events recording_host = [RecorderStart]"
  by (simp_all add: recording_soniq_def recording_host_def soniq_record_def ready_soniq_eq
      ready_host_events emit_fields)

lemma stopping_soniq_eq:
  "stopping_soniq = ready_soniq\<lparr>isRecording := True, chunks := [[1]]\<rparr>"
  by (simp add: stopping_soniq_def one_chunk_soniq_def stop_def ondataavailable_def
      recording_soniq_eq ready_soniq_eq)

text \<open>
  C2, as stated, fails: after \<open>stop\<close> has returned true the flag is still set, a chunk
  delivered then is appended, and the artifact handed to \<open>onRecorded\<close> contains it.
\<close>

theorem chunk_after_stop_is_recorded:
  "fst (stop False recording_host one_chunk_soniq) \<and>
   isRecording stopping_soniq \<and>
   chunks (ondataavailable [2] stopping_soniq) = [[1], [2]] \<and>
   OnRecorded [[1], [2]] \<in> set (events (fst (onstop stopping_host (ondataavailable [2] stopping_soniq))))"
  by (simp add: stopping_soniq_eq stopping_host_def one_chunk_soniq_def recording_soniq_eq
      ready_soniq_eq stop_def ondataavailable_def onstop_def soniq_cleanup_def cleanup_def
      emit_fields Let_def)

text \<open>
  C3, as stated, fails: \<open>record\<close> does not look at the flag. In the session that is
  recording and whose \<open>stop\<close> has just returned, the recorder accepts \<open>start\<close>, and
  \<open>record\<close> returns true although the session is not ready.
\<close>

theorem record_while_recording_succeeds:
  "phase stopping_soniq = Recording \<and> phase stopping_soniq \<noteq> Ready \<and>
   fst (soniq_record False stopping_host stopping_soniq)"
  by (simp add: stopping_soniq_eq ready_soniq_eq phase_def soniq_record_def)

text \<open>
  C3, amended. \<open>record\<close> returns true exactly when a recorder exists and its \<open>start\<close>
  does not throw, whatever the flag; it then has started the recorder and set the flag, and
  the session is recording. Otherwise it returns false and changes nothing. So it fails in
  the idle session, and succeeds in the ready one unless \<open>start\<close> throws.
\<close>

theorem record_outcome:
  assumes "soniq_record throws h s = (ok, h', s')"
  shows "(ok \<longleftrightarrow> recorder s \<noteq> None \<and> \<not> throws)
         \<and> (\<not> ok \<longrightarrow> h' = h \<and> s' = s)
         \<and> (ok \<longrightarrow> h' = emit RecorderStart h \<and> s' = s\<lparr>isRecording := True\<rparr> \<and> phase s' = Recording)
         \<and> (phase s = Idle \<longrightarrow> \<not> ok)
         \<and> (phase s = Ready \<and> \<not> throws \<longrightarrow> ok)"
  using assms by (auto simp: soniq_record_def phase_def split: if_splits)

lemma cleanup_events_prefix: "cleanup h v = (h', v') \<Longrightarrow> \<exists>rest. events h' = events h @ rest"
  by (auto simp: cleanup_def cancelAnimationFrame_def emit_fields split: option.splits if_splits)

lemma soniq_cleanup_events_prefix:
  assumes "soniq_cleanup h s = (h', s')"
  shows "\<exists>rest. events h' = events h @ rest"
proof -
  obtain h1 v1 where c: "cleanup h (visualizer s) = (h1, v1)"
    by (cases "cleanup h (visualizer s)") blast
  from cleanup_events_prefix[OF c] obtain r1 where r1: "events h1 = events h @ r1" by blast
  let ?h2 = "case stream s of None \<Rightarrow> h1
                | Some ts \<Rightarrow> foldl (\<lambda>hh t. emit (TrackStop t) hh) h1 ts"
  have r2: "\<exists>r. events ?h2 = events h1 @ r"
    by (cases "stream s") (simp_all add: foldl_emit_events)
  have "events h' = events ?h2 \<or> (\<exists>e. events h' = events ?h2 @ [e])"
    using assms c by (cases "audioContext s") (auto simp: soniq_cleanup_def Let_def emit_fields)
  with r1 r2 show ?thesis by auto
qed



text \<open>
  C2, amended. \<open>stop\<close> stops the recorder and changes nothing else: the flag stays set. A
  chunk delivered after it is appended, and the recorder's stop event hands
  \<open>onRecorded\<close> the buffer including that chunk; only the teardown that follows clears
  the flag and the buffer, and chunks delivered from then on are dropped. \<open>cancel\<close>
  clears the flag before it stops the recorder, so after it every chunk is dropped and the
  stop event does nothing.
\<close>

theorem stop_leaves_flag_set:
  assumes "stop throws h s = (True, h1, s1)"
  shows "s1 = s \<and> isRecording s1 \<and> h1 = emit RecorderStop h
         \<and> chunks (ondataavailable c s1) = chunks s @ [c]
         \<and> (\<forall>h2 s2. onstop h1 (ondataavailable c s1) = (h2, s2) \<longrightarrow>
               (\<exists>rest. events h2 = events h @ [RecorderStop, OnRecorded (chunks s @ [c])] @ rest)
               \<and> \<not> isRecording s2 \<and> chunks s2 = [] \<and> ondataavailable c' s2 = s2)
         \<and> (\<forall>hc sc. cancel False h s = (True, hc, sc) \<longrightarrow>
               ondataavailable c sc = sc \<and> onstop hc sc = (hc, sc))"
proof -
  from assms have a: "s1 = s" "isRecording s" "h1 = emit RecorderStop h"
    by (auto simp: stop_def split: if_splits)
  have b: "ondataavailable c s = s\<lparr>chunks := chunks s @ [c]\<rparr>"
    using a(2) by (simp add: ondataavailable_def)
  have 1: "(\<exists>rest. events h2 = events h @ [RecorderStop, OnRecorded (chunks s @ [c])] @ rest)
               \<and> \<not> isRecording s2 \<and> chunks s2 = [] \<and> ondataavailable c' s2 = s2"
    if o: "onstop h1 (ondataavailable c s1) = (h2, s2)" for h2 s2
  proof -
    have k: "soniq_cleanup (emit (OnRecorded (chunks s @ [c])) (emit RecorderStop h))
                    (s\<lparr>chunks := chunks s @ [c]\<rparr>) = (h2, s2)"
      using o a(2) unfolding a(1,3) b by (simp add: onstop_def)
    from soniq_cleanup_events_prefix[OF k] obtain rest where
      "events h2 = events (emit (OnRecorded (chunks s @ [c])) (emit RecorderStop h)) @ rest"
      by blast
    then have "events h2 = events h @ [RecorderStop, OnRecorded (chunks s @ [c])] @ rest"
      by (simp add: emit_fields)
    then have e: "\<exists>rest. events h2 = events h @ [RecorderStop, OnRecorded (chunks s @ [c])] @ rest"
      by (rule exI)
    have f: "\<not> isRecording s2" "chunks s2 = []" using soniq_cleanup_state[OF k] by simp_all
    then have "ondataavailable c' s2 = s2" by (simp add: ondataavailable_def)
    with e f show ?thesis by blast
  qed
  have 2: "ondataavailable c sc = sc \<and> onstop hc sc = (hc, sc)"
    if o: "cancel False h s = (True, hc, sc)" for hc sc
  proof -
    have k: "soniq_cleanup (emit RecorderStop h) (s\<lparr>isRecording := False\<rparr>) = (hc, sc)"
      using o by (auto simp: cancel_def Let_def split: if_splits prod.splits)
    have "\<not> isRecording sc" using soniq_cleanup_state[OF k] by simp
    then show ?thesis by (simp add: ondataavailable_def onstop_def)
  qed
  have 3: "chunks (ondataavailable c s1) = chunks s @ [c]" unfolding a(1) b by simp
  show ?thesis
    apply (intro conjI allI impI)
    using a apply simp
    using a apply simp
    using a apply simp
    using 3 apply simp
    using 1 apply blast
    using 1 apply blast
    using 1 apply blast
    using 1 apply blast
    using 2 apply blast
    using 2 apply blast
    done
qed


theorem stop_leaves_flag_set_witness:
  "stop False recording_host one_chunk_soniq = (True, stopping_host, stopping_soniq) \<and>
   isRecording stopping_soniq \<and>
   chunks (ondataavailable [2] stopping_soniq) = [[1], [2]]"
proof -
  have r: "stop False recording_host one_chunk_soniq = (True, stopping_host, stopping_soniq)"
    by (simp add: stopping_host_def stopping_soniq_def stop_def one_chunk_soniq_def
        ondataavailable_def recording_soniq_eq ready_soniq_eq)
  have c: "chunks one_chunk_soniq = [[1]]"
    by (simp add: one_chunk_soniq_def ondataavailable_def recording_soniq_eq ready_soniq_eq)
  have "isRecording stopping_soniq"
    and "chunks (ondataavailable [2] stopping_soniq) = chunks one_chunk_soniq @ [[2]]"
    using stop_leaves_flag_set[OF r, of "[2]"] by blast+
  with r c show ?thesis by simp
qed

theorem record_outcome_witness:
  "soniq_record False ready_host ready_soniq = (True, recording_host, recording_soniq) \<and>
   recorder ready_soniq \<noteq> None \<and> phase recording_soniq = Recording"
proof -
  have r: "soniq_record False ready_host ready_soniq = (True, recording_host, recording_soniq)"
    by (simp add: recording_host_def recording_soniq_def soniq_record_def ready_soniq_eq)
  have "recorder ready_soniq \<noteq> None" and "phase recording_soniq = Recording"
    using record_outcome[OF r] by blast+
  with r show ?thesis by simp
qed


theorem setup_failure_witness:
  "MediaRecorderFails \<noteq> NoFault \<and>
   \<not> fst (soniq_setup MediaRecorderFails sample_grant fresh_host sample_soniq) \<and>
   events (fst (snd (soniq_setup MediaRecorderFails sample_grant fresh_host sample_soniq))) =
     events (fst (soniq_cleanup fresh_host sample_soniq)) @ [OnPermissionsFailed, TrackStop 7, ContextClose 3]"
proof -
  let ?r = "soniq_setup MediaRecorderFails sample_grant fresh_host sample_soniq"
  let ?c = "soniq_cleanup fresh_host sample_soniq"
  have f: "MediaRecorderFails \<noteq> NoFault" by simp
  have c: "?c = (fst ?c, snd ?c)" and r: "?r = (fst ?r, fst (snd ?r), snd (snd ?r))" by simp_all
  have a: "audioContext (snd (snd ?r)) = Some \<lparr>ctx_id = 3, ctx_state = Closed\<rparr>"
    and t: "g_tracks sample_grant = [7]"
    by (simp_all add: sample_defs soniq_defs)
  from setup_failure_reports_then_tears_down[OF f c r] a t f show ?thesis by simp
qed

text \<open>A second teardown right after a first one.\<close>

lemma second_cleanup:
  assumes "soniq_cleanup h s = (h1, s1)" and "soniq_cleanup h1 s1 = (h2, s2)"
  shows "s2 = s1 \<and> events h2 = events h1
           @ (case audioContext s of None \<Rightarrow> [] | Some c \<Rightarrow> [ContextClose (ctx_id c)])"
proof -
  note st = soniq_cleanup_state[OF assms(1)]
  have i: "idle_loop (visualizer s1)" using st by simp
  note k = soniq_cleanup_idle[OF i assms(2)]
  have "s2 = s1"
    using assms(2) st i
    by (cases "audioContext s")
       (auto simp: soniq_cleanup_def cleanup_when_idle Let_def split: option.splits)
  moreover have "events h2 = events h1
           @ (case audioContext s of None \<Rightarrow> [] | Some c \<Rightarrow> [ContextClose (ctx_id c)])"
    using k(1) st by (cases "audioContext s") simp_all
  ultimately show ?thesis by simp
qed


lemma setAnalyser_keeps:
  "setAnalyser a h v = (h', v') \<Longrightarrow>
     vid v' = vid v \<and> animationFrameId v' = animationFrameId v \<and> analyser v' = Some a
     \<and> strat v' = strat v \<and> frame_callbacks h' = frame_callbacks h
     \<and> frame_counter h' = frame_counter h \<and> events h' = events h"
  by (auto simp: setAnalyser_def Let_def)

lemma cleanup_shrinks:
  "cleanup h v = (h', v') \<Longrightarrow> set (frame_callbacks h') \<subseteq> set (frame_callbacks h)"
  by (auto simp: cleanup_def cancelAnimationFrame_def emit_fields emit_def
      split: option.splits if_splits)

lemma scheduled_mono:
  "set (frame_callbacks h') \<subseteq> set (frame_callbacks h) \<Longrightarrow> vid v' = vid v \<Longrightarrow>
     set (scheduled h' v') \<subseteq> set (scheduled h v)"
  by (auto simp: scheduled_def)

text \<open>
  C4, amended. \<open>setVisualizer\<close> cancels the scheduled callback of the renderer it replaces,
  installs the new renderer and, when the session has an analyser, attaches it. It requests
  no animation frame: the new renderer's handle and scheduled callbacks are what they were,
  so a visualization that was active is not restarted (the caller has to call
  \<open>visualize\<close> again). Recorder, chunk buffer, flag, stream, audio context and analyser of
  the session are unchanged.
\<close>

theorem setVisualizer_effect:
  assumes "loop_inv h (visualizer s)" and "vid nv \<noteq> vid (visualizer s)"
    and "setVisualizer nv h s = (h', s', old)"
  shows "vid old = vid (visualizer s) \<and> scheduled h' old = []
         \<and> (\<forall>a. sq_analyser s = Some a \<longrightarrow> analyser (visualizer s') = Some a)
         \<and> (sq_analyser s = None \<longrightarrow> visualizer s' = nv)
         \<and> vid (visualizer s') = vid nv
         \<and> animationFrameId (visualizer s') = animationFrameId nv
         \<and> frame_counter h' = frame_counter h
         \<and> set (scheduled h' (visualizer s')) \<subseteq> set (scheduled h nv)
         \<and> recorder s' = recorder s \<and> chunks s' = chunks s \<and> isRecording s' = isRecording s
         \<and> stream s' = stream s \<and> audioContext s' = audioContext s
         \<and> sq_analyser s' = sq_analyser s"
proof -
  obtain h1 o1 where c: "cleanup h (visualizer s) = (h1, o1)"
    by (cases "cleanup h (visualizer s)") blast
  note ci = cleanup_inv[OF assms(1) c] and ck = cleanup_keeps[OF c] and cs = cleanup_shrinks[OF c]
  have ne: "vid nv \<noteq> vid o1" using assms(2) ck by simp
  show ?thesis
  proof (cases "sq_analyser s")
    case None
    with assms(3) c ne have e: "h' = h1" "s' = s\<lparr>visualizer := nv\<rparr>" "old = o1"
      by (simp_all add: setVisualizer_def)
    have "set (scheduled h1 nv) \<subseteq> set (scheduled h nv)" using cs by (rule scheduled_mono) simp
    with e ci ck None show ?thesis by simp
  next
    case (Some a)
    obtain h2 n2 where sa: "setAnalyser a h1 nv = (h2, n2)" by (cases "setAnalyser a h1 nv") blast
    note sk = setAnalyser_keeps[OF sa]
    from Some assms(3) c ne sa have e: "h' = h2" "s' = s\<lparr>visualizer := n2\<rparr>" "old = o1"
      by (simp_all add: setVisualizer_def)
    have "scheduled h2 o1 = scheduled h1 o1" using sk by (intro scheduled_cong) simp_all
    moreover have "set (scheduled h2 n2) \<subseteq> set (scheduled h nv)"
      using cs sk by (intro scheduled_mono) simp_all
    ultimately show ?thesis using e ci ck sk Some by simp
  qed
qed

lemma visualizing_eq:
  "visualizing_soniq = ready_soniq\<lparr>visualizer :=
      \<lparr>vid = 1, analyser = Some 5, animationFrameId = Some 1,
       dataArray = replicate 32 0, fftSize = 64, dpr = 2, strat = Bar 0 1 2\<rparr>\<rparr>"
  "frame_callbacks visualizing_host = [(1, \<lparr>cb_owner = 1, cb_canvas =
      \<lparr>rect_width = 300, rect_height = 150, cv_width = 600, cv_height = 300, has_2d = True\<rparr>\<rparr>)]"
  "frame_counter visualizing_host = 1"
  by (simp_all add: visualizing_soniq_def visualizing_host_def soniq_visualize_def visualize_def
      bar_visualize_def updateBars_def reschedule_def requestAnimationFrame_def cleanup_def
      setupHighDPICanvas_def ready_soniq_eq ready_host_def sample_defs soniq_defs
      sample_canvas_def quiet_frame_def)

text \<open>
  C4, as stated, fails: with the bar renderer drawing on the canvas, swapping in a new
  spectrum renderer leaves no callback scheduled and the new renderer without a handle.
\<close>

theorem setVisualizer_does_not_restart:
  "scheduled visualizing_host (visualizer visualizing_soniq) = [1] \<and>
   frame_callbacks (fst (setVisualizer (new_visualizer 2 None (Spectrum []))
                           visualizing_host visualizing_soniq)) = [] \<and>
   animationFrameId (visualizer (fst (snd (setVisualizer (new_visualizer 2 None (Spectrum []))
                           visualizing_host visualizing_soniq)))) = None"
  by (simp add: visualizing_eq scheduled_def setVisualizer_def cleanup_def cancelAnimationFrame_def
      emit_fields emit_def setAnalyser_def new_visualizer_def ready_soniq_eq Let_def)


theorem setVisualizer_effect_witness:
  "loop_inv visualizing_host (visualizer visualizing_soniq) \<and>
   vid (new_visualizer 2 None (Spectrum [])) \<noteq> vid (visualizer visualizing_soniq) \<and>
   scheduled (fst (setVisualizer (new_visualizer 2 None (Spectrum [])) visualizing_host visualizing_soniq))
             (snd (snd (setVisualizer (new_visualizer 2 None (Spectrum [])) visualizing_host visualizing_soniq))) = [] \<and>
   analyser (visualizer (fst (snd (setVisualizer (new_visualizer 2 None (Spectrum []))
                           visualizing_host visualizing_soniq)))) = Some 5"
proof -
  let ?nv = "new_visualizer 2 None (Spectrum [])"
  let ?r = "setVisualizer ?nv visualizing_host visualizing_soniq"
  have i: "loop_inv visualizing_host (visualizer visualizing_soniq)"
    by (simp add: loop_inv_def visualizing_eq)
  have n: "vid ?nv \<noteq> vid (visualizer visualizing_soniq)"
    by (simp add: new_visualizer_def visualizing_eq)
  have r: "?r = (fst ?r, fst (snd ?r), snd (snd ?r))" by simp
  have a: "sq_analyser visualizing_soniq = Some 5" by (simp add: visualizing_eq ready_soniq_eq)
  have "scheduled (fst ?r) (snd (snd ?r)) = []"
    and "analyser (visualizer (fst (snd ?r))) = Some 5"
    using setVisualizer_effect[OF i n r] a by blast+
  with i n show ?thesis by blast
qed

section \<open>Spectrum smoothing\<close>

lemma byte_in_range: "in_byte_range (real (unat (b :: byte)))"
proof -
  have "unat b < 2 ^ LENGTH(8)" by (rule unsigned_less)
  then have "unat b \<le> 255" by simp
  then have "real (unat b) \<le> 255" by (simp del: of_nat_unat)
  moreover have "0 \<le> real (unat b)" by (simp del: of_nat_unat)
  ultimately show ?thesis unfolding in_byte_range_def by blast
qed

lemma byte_in_range': "in_byte_range (unsigned (b :: byte))"
  using byte_in_range[of b] by simp

lemma mix_in_range:
  assumes "in_byte_range s" and "in_byte_range r"
  shows "in_byte_range (s * (8 / 10) + r * (2 / 10))"
  using assms unfolding in_byte_range_def by simp

lemma smooth_in_range:
  assumes "list_all in_byte_range sm"
  shows "list_all in_byte_range (smooth sm da)"
proof (cases "length sm = length da")
  case False
  then show ?thesis by (simp add: smooth_def list_all_iff byte_in_range')
next
  case True
  have "in_byte_range (s * (8 / 10) + real (unat b) * (2 / 10))" if "(s, b) \<in> set (zip sm da)" for s b
  proof -
    have "s \<in> set sm" using that by (rule set_zip_leftD)
    then have "in_byte_range s" using assms by (simp add: list_all_iff)
    then show ?thesis using byte_in_range by (rule mix_in_range)
  qed
  then show ?thesis using True by (auto simp: smooth_def list_all_iff)
qed

lemma smooth_frames_in_range:
  "list_all in_byte_range sm \<Longrightarrow> list_all in_byte_range (smooth_frames k da sm)"
  by (induction k) (simp_all add: smooth_frames_def smooth_in_range)


lemma reschedule_strat: "reschedule c h v = (h', v') \<Longrightarrow> strat v' = strat v \<and> dataArray v' = dataArray v \<and> analyser v' = analyser v"
  by (auto simp: reschedule_def split: prod.splits)

lemma draw_in_range:
  assumes "list_all in_byte_range (smoothed v)" and "draw c inp h v = (h', v')"
  shows "list_all in_byte_range (smoothed v')"
proof (cases "analyser v = None")
  case True
  with assms show ?thesis
    by (auto simp: draw_def updateBars_def drawWave_def drawSpectrum_def animateParticles_def
        split: strategy.splits)
next
  case False
  obtain h1 v1 where r: "reschedule c h v = (h1, v1)" by (cases "reschedule c h v") blast
  note k = reschedule_strat[OF r]
  show ?thesis
  proof (cases "strat v")
    case (Bar x t bw)
    with assms(2) False r k show ?thesis
      by (auto simp: draw_def updateBars_def smoothed_def Let_def split: if_splits)
  next
    case Wave
    with assms(2) False r k show ?thesis
      by (auto simp: draw_def drawWave_def smoothed_def)
  next
    case (Spectrum sm)
    with assms(2) False r k have "smoothed v' = smooth sm (getByteFrequencyData (freq_data inp) (dataArray v))"
      by (auto simp: draw_def drawSpectrum_def smoothed_def Let_def)
    moreover have "list_all in_byte_range sm" using assms(1) Spectrum by (simp add: smoothed_def)
    ultimately show ?thesis by (simp add: smooth_in_range)
  next
    case (Particle ps hu cnt mx mn ls bs)
    with assms(2) False r k show ?thesis
      by (auto simp: draw_def animateParticles_def updateParticles_def smoothed_def Let_def)
  qed
qed

lemma visualize_in_range:
  assumes "list_all in_byte_range (smoothed v)" and "visualize co inp h v = (ok, h', v')"
  shows "list_all in_byte_range (smoothed v')"
proof (cases ok)
  case False
  with visualize_guard[OF assms(2)] assms(1) show ?thesis by simp
next
  case True
  obtain h1 v1 where c: "cleanup h v = (h1, v1)" by (cases "cleanup h v") blast
  from visualize_guard[OF assms(2)] True obtain cv where
    g: "analyser v \<noteq> None" "co = Some cv" "has_2d cv" by auto
  obtain v2 c2 where s: "setupHighDPICanvas h1 v1 cv = (v2, c2)"
    by (cases "setupHighDPICanvas h1 v1 cv") blast
  note k = setupHighDPICanvas_keeps[OF s] cleanup_keeps[OF c]
  show ?thesis
  proof (cases "strat v")
    case (Bar x t bw)
    let ?v3 = "v2\<lparr>strat := Bar 0 t bw\<rparr>"
    have "draw c2 inp h1 ?v3 = (h', v')"
      using assms(2) True g c s k Bar by (simp add: visualize_def bar_visualize_def draw_def)
    moreover have "list_all in_byte_range (smoothed ?v3)" by (simp add: smoothed_def)
    ultimately show ?thesis by (rule draw_in_range[rotated])
  next
    case Wave
    have "draw c2 inp h1 v2 = (h', v')"
      using assms(2) True g c s k Wave by (simp add: visualize_def wave_visualize_def draw_def)
    moreover have "list_all in_byte_range (smoothed v2)" using k Wave by (simp add: smoothed_def)
    ultimately show ?thesis by (rule draw_in_range[rotated])
  next
    case (Spectrum sm)
    let ?v3 = "v2\<lparr>strat := Spectrum (replicate (frequencyBinCount h1 (the (analyser v2))) 0)\<rparr>"
    have "draw c2 inp h1 ?v3 = (h', v')"
      using assms(2) True g c s k Spectrum by (simp add: visualize_def spectrum_visualize_def draw_def)
    moreover have "list_all in_byte_range (smoothed ?v3)"
      by (simp add: smoothed_def list_all_iff in_byte_range_def)
    ultimately show ?thesis by (rule draw_in_range[rotated])
  next
    case (Particle ps hu cnt mx mn ls bs)
    let ?v3 = "v2\<lparr>strat := Particle [] 0 cnt mx mn ls bs\<rparr>"
    have "draw c2 inp h1 ?v3 = (h', v')"
      using assms(2) True g c s k Particle by (simp add: visualize_def particle_visualize_def draw_def)
    moreover have "list_all in_byte_range (smoothed ?v3)" by (simp add: smoothed_def)
    ultimately show ?thesis by (rule draw_in_range[rotated])
  qed
qed

lemma invoke_all_in_range:
  "list_all in_byte_range (smoothed v) \<Longrightarrow> invoke_all cbs inp h v = (h', v') \<Longrightarrow>
     list_all in_byte_range (smoothed v')"
proof (induction cbs arbitrary: h v)
  case Nil
  then show ?case by simp
next
  case (Cons kc cbs)
  obtain k cb where kc: "kc = (k, cb)" by (cases kc)
  obtain h1 v1 where d: "draw (cb_canvas cb) inp (emit (Drew (vid v)) h) v = (h1, v1)"
    by (cases "draw (cb_canvas cb) inp (emit (Drew (vid v)) h) v") blast
  from draw_in_range[OF Cons.prems(1) d] Cons.IH[of v1 h1] Cons.prems(2) kc d show ?case by simp
qed

lemma vstep_in_range:
  assumes "list_all in_byte_range (smoothed v)" and "vstep op h v = (h', v')"
  shows "list_all in_byte_range (smoothed v')"
proof (cases op)
  case (Visualize co inp)
  obtain ok where "visualize co inp h v = (ok, h', v')"
    using assms(2) Visualize by (cases "visualize co inp h v") auto
  from visualize_in_range[OF assms(1) this] show ?thesis .
next
  case Cleanup
  with assms cleanup_keeps[of h v h' v'] show ?thesis by (simp add: smoothed_def)
next
  case (SetAnalyser a)
  with assms setAnalyser_keeps[of a h v h' v'] show ?thesis by (simp add: smoothed_def)
next
  case (Frame inp)
  with assms invoke_all_in_range show ?thesis by (simp add: run_frame_def Let_def)
qed

text \<open>
  C10. The raw magnitudes are bytes. If every entry of a renderer's smoothed array lies in
  [0, 255] (as it does for a new renderer, whose array is empty), then it does so after any
  run of \<open>visualize\<close>, \<open>cleanup\<close>, \<open>setAnalyser\<close> calls and display frames, whatever
  data the frames read.
\<close>

theorem smoothed_stays_in_byte_range:
  "list_all in_byte_range (smoothed v) \<Longrightarrow> run_ops ops h v = (h', v') \<Longrightarrow>
     list_all in_byte_range (smoothed v')"
proof (induction ops arbitrary: h v)
  case Nil
  then show ?case by simp
next
  case (Cons op ops)
  obtain h1 v1 where s: "vstep op h v = (h1, v1)" by (cases "vstep op h v") blast
  from vstep_in_range[OF Cons.prems(1) s] Cons.IH[of v1 h1] Cons.prems(2) s show ?case by simp
qed


lemma length_smooth: "length (smooth sm da) = length da"
  by (simp add: smooth_def)

lemma length_smooth_frames: "length sm = length da \<Longrightarrow> length (smooth_frames k da sm) = length da"
  by (induction k) (simp_all add: smooth_frames_def length_smooth)

lemma smooth_nth:
  assumes "length sm = length da" and "i < length da"
  shows "smooth sm da ! i = sm ! i * (8 / 10) + real (unat (da ! i)) * (2 / 10)"
  using assms by (simp add: smooth_def del: of_nat_unat)

lemma smooth_nth_mismatch:
  assumes "length sm \<noteq> length da" and "i < length da"
  shows "smooth sm da ! i = real (unat (da ! i))"
  using assms by (simp add: smooth_def del: of_nat_unat)

lemma smooth_frames_Suc: "smooth_frames (Suc k) da sm = smooth (smooth_frames k da sm) da"
  by (simp add: smooth_frames_def)

lemma mix_step: "(V + d * p) * (8 / 10) + V * (2 / 10) = V + d * ((4 / 5) * p)" for V d p :: real
  by (simp add: field_simps)

lemma smooth_frames_nth:
  assumes "length sm = length da" and "i < length da"
  shows "smooth_frames k da sm ! i =
           real (unat (da ! i)) + (sm ! i - real (unat (da ! i))) * (4 / 5) ^ k"
proof (induction k)
  case 0
  show ?case by (simp add: smooth_frames_def)
next
  case (Suc k)
  have "smooth_frames (Suc k) da sm ! i =
          smooth_frames k da sm ! i * (8 / 10) + real (unat (da ! i)) * (2 / 10)"
    unfolding smooth_frames_Suc
    using length_smooth_frames[OF assms(1)] assms(2) by (intro smooth_nth) simp_all
  also have "\<dots> = real (unat (da ! i)) + (sm ! i - real (unat (da ! i))) * (4 / 5) ^ Suc k"
    unfolding Suc.IH power_Suc by (rule mix_step)
  finally show ?case .
qed


lemma geometric_gap_vanishes: "(\<lambda>k. V + d * (4 / 5) ^ k) \<longlonglongrightarrow> V" for V d :: real
proof -
  have "(\<lambda>k. (4 / 5 :: real) ^ k) \<longlonglongrightarrow> 0" by (rule LIMSEQ_realpow_zero) simp_all
  then have "(\<lambda>k. d * (4 / 5) ^ k) \<longlonglongrightarrow> d * 0" by (rule tendsto_mult_left)
  with tendsto_const have "(\<lambda>k. V + d * (4 / 5) ^ k) \<longlonglongrightarrow> V + d * 0" by (rule tendsto_add)
  then show ?thesis by simp
qed

text \<open>
  With an exact store (no rounding): the closed form of a bin after \<open>k\<close> frames that read
  the same data, and its limit.
\<close>

lemma exact_store_closed_form:
  assumes "length sm = length da" and "i < length da"
  shows "smooth sm da ! i = sm ! i * (8 / 10) + real (unat (da ! i)) * (2 / 10)
         \<and> smooth (replicate (length da) 0) da ! i = real (unat (da ! i)) * (2 / 10)
         \<and> (\<forall>k. smooth_frames k da sm ! i =
                  real (unat (da ! i)) + (sm ! i - real (unat (da ! i))) * (4 / 5) ^ k)
         \<and> (sm ! i \<le> real (unat (da ! i)) \<longrightarrow>
              (\<forall>k. smooth_frames k da sm ! i \<le> smooth_frames (Suc k) da sm ! i
                   \<and> smooth_frames (Suc k) da sm ! i \<le> real (unat (da ! i))))
         \<and> (real (unat (da ! i)) \<le> sm ! i \<longrightarrow>
              (\<forall>k. smooth_frames (Suc k) da sm ! i \<le> smooth_frames k da sm ! i
                   \<and> real (unat (da ! i)) \<le> smooth_frames (Suc k) da sm ! i))
         \<and> (\<lambda>k. smooth_frames k da sm ! i) \<longlonglongrightarrow> real (unat (da ! i))"
proof -
  let ?V = "real (unat (da ! i))"
  let ?d = "sm ! i - ?V"
  note cf = smooth_frames_nth[OF assms]
  have 1: "smooth sm da ! i = sm ! i * (8 / 10) + ?V * (2 / 10)"
    using assms by (rule smooth_nth)
  have 2: "smooth (replicate (length da) 0) da ! i = ?V * (2 / 10)"
    using smooth_nth[of "replicate (length da) 0" da i] assms(2) by (simp del: of_nat_unat)
  have 3: "\<forall>k. smooth_frames k da sm ! i = ?V + ?d * (4 / 5) ^ k"
    using cf by blast
  have 4: "smooth_frames k da sm ! i \<le> smooth_frames (Suc k) da sm ! i
             \<and> smooth_frames (Suc k) da sm ! i \<le> ?V" if le: "sm ! i \<le> ?V" for k
  proof -
    have p: "(0::real) \<le> (4 / 5) ^ k" by simp
    have "?d * (4 / 5) ^ k \<le> ?d * ((4 / 5) * (4 / 5) ^ k)"
    proof -
      have "(4 / 5) * (4 / 5 :: real) ^ k \<le> (4 / 5) ^ k" using p by simp
      moreover have "?d \<le> 0" using le by simp
      ultimately show ?thesis by (rule mult_left_mono_neg)
    qed
    moreover have "?d * ((4 / 5) * (4 / 5) ^ k) \<le> 0"
      using le p by (intro mult_nonpos_nonneg) simp_all
    ultimately show ?thesis unfolding cf[of k] cf[of "Suc k"] power_Suc by simp
  qed
  have 6: "smooth_frames (Suc k) da sm ! i \<le> smooth_frames k da sm ! i
             \<and> ?V \<le> smooth_frames (Suc k) da sm ! i" if ge: "?V \<le> sm ! i" for k
  proof -
    have p: "(0::real) \<le> (4 / 5) ^ k" by simp
    have "?d * ((4 / 5) * (4 / 5) ^ k) \<le> ?d * (4 / 5) ^ k"
    proof -
      have "(4 / 5) * (4 / 5 :: real) ^ k \<le> (4 / 5) ^ k" using p by simp
      moreover have "0 \<le> ?d" using ge by simp
      ultimately show ?thesis by (rule mult_left_mono)
    qed
    moreover have "0 \<le> ?d * ((4 / 5) * (4 / 5) ^ k)"
      using ge p by (intro mult_nonneg_nonneg) simp_all
    ultimately show ?thesis unfolding cf[of k] cf[of "Suc k"] power_Suc by simp
  qed
  have 5: "(\<lambda>k. smooth_frames k da sm ! i) \<longlonglongrightarrow> ?V"
    unfolding cf by (rule geometric_gap_vanishes)
  from 1 2 3 4 5 6 show ?thesis by blast
qed


lemma spectrum_sample_eq:
  "spectrum_sample = \<lparr>vid = 2, analyser = Some 5, animationFrameId = None,
      dataArray = replicate 16 0, fftSize = 32, dpr = 1, strat = Spectrum []\<rparr>"
  "fft_sizes spectrum_host 5 = 32" "frame_callbacks spectrum_host = []"
  "frame_counter spectrum_host = 0"
  by (simp_all add: spectrum_sample_def spectrum_host_def setAnalyser_def new_visualizer_def
      fresh_host_def frequencyBinCount_def Let_def)




lemma smooth_from_zero:
  "smooth (replicate (length da) 0) da = map (\<lambda>b. real (unat b) * (2 / 10)) da"
proof (rule nth_equalityI)
  show "length (smooth (replicate (length da) 0) da) = length (map (\<lambda>b. real (unat b) * (2 / 10)) da)"
    by (simp add: length_smooth)
next
  fix i assume "i < length (smooth (replicate (length da) 0) da)"
  then have i: "i < length da" by (simp add: length_smooth)
  then show "smooth (replicate (length da) 0) da ! i = map (\<lambda>b. real (unat b) * (2 / 10)) da ! i"
    using smooth_nth[of "replicate (length da) 0" da i] by (simp del: of_nat_unat)
qed

text \<open>
  The first frame of a run: \<open>visualize\<close> replaces the smoothed array by zeros, one per bin
  of the node, and draws at once; when the data array has that length (as it has after
  \<open>setAnalyser\<close>), the frame applies the recurrence to the zeros.
\<close>

lemma spectrum_first_frame:
  assumes "strat v = Spectrum sm0" and "analyser v = Some a"
    and "length (dataArray v) = frequencyBinCount h a"
    and "visualize (Some c) inp h v = (True, h', v')"
  shows "smoothed v' = map (\<lambda>b. real (unat b) * (2 / 10)) (dataArray v')"
proof -
  obtain h1 v1 where c: "cleanup h v = (h1, v1)" by (cases "cleanup h v") blast
  obtain v2 c2 where s: "setupHighDPICanvas h1 v1 c = (v2, c2)"
    by (cases "setupHighDPICanvas h1 v1 c") blast
  note k = setupHighDPICanvas_keeps[OF s] cleanup_keeps[OF c]
  let ?n = "frequencyBinCount h1 a"
  let ?v3 = "v2\<lparr>strat := Spectrum (replicate ?n 0)\<rparr>"
  have n: "?n = length (dataArray v)" using k assms(3) by (simp add: frequencyBinCount_def)
  have g: "has_2d c" using visualize_guard[OF assms(4)] by simp
  have d: "drawSpectrum c2 inp h1 ?v3 = (h', v')"
    using assms(1,2,4) g c s k by (simp add: visualize_def spectrum_visualize_def)
  obtain h4 v4 where r: "reschedule c2 h1 ?v3 = (h4, v4)" by (cases "reschedule c2 h1 ?v3") blast
  note rk = reschedule_strat[OF r]
  let ?da = "getByteFrequencyData (freq_data inp) (dataArray v)"
  have l: "length ?da = length (dataArray v)" by (simp add: getByteFrequencyData_def)
  have "dataArray v' = ?da \<and> smoothed v' = smooth (replicate ?n 0) ?da"
    using d r rk k assms(2) by (auto simp: drawSpectrum_def Let_def smoothed_def)
  then show ?thesis using smooth_from_zero[of ?da] n l by simp
qed

theorem smoothed_stays_in_byte_range_witness:
  "list_all in_byte_range (smoothed spectrum_sample) \<and>
   list_all in_byte_range
     (smoothed (snd (run_ops [Visualize (Some sample_canvas) loud_frame, Frame loud_frame]
                       spectrum_host spectrum_sample)))"
proof -
  let ?r = "run_ops [Visualize (Some sample_canvas) loud_frame, Frame loud_frame]
              spectrum_host spectrum_sample"
  have a: "list_all in_byte_range (smoothed spectrum_sample)"
    by (simp add: spectrum_sample_eq smoothed_def)
  have r: "?r = (fst ?r, snd ?r)" by simp
  from smoothed_stays_in_byte_range[OF a r] a show ?thesis by blast
qed

subsection \<open>Smoothing with the rounding of the store\<close>

lemma smooth_stored_exact: "smooth_stored (\<lambda>x. x) sm da = smooth sm da"
  by (simp add: smooth_stored_def smooth_def)

















section \<open>Particle lifecycle\<close>

lemma sweep_filter:
  "i \<le> length ps \<Longrightarrow>
     sweep dw dh i ps = filter (\<lambda>q. \<not> expired dw dh q) (map advance (take i ps)) @ drop i ps"
proof (induction i arbitrary: ps)
  case 0
  then show ?case by simp
next
  case (Suc i)
  then have i: "i < length ps" by simp
  let ?p = "advance (ps ! i)"
  have t: "take (Suc i) ps = take i ps @ [ps ! i]" using i by (rule take_Suc_conv_app_nth)
  show ?case
  proof (cases "expired dw dh ?p")
    case True
    let ?ps' = "take i ps @ drop (Suc i) ps"
    have l: "i \<le> length ?ps'" using i by simp
    have "sweep dw dh (Suc i) ps = sweep dw dh i ?ps'" using True by simp
    also have "\<dots> = filter (\<lambda>q. \<not> expired dw dh q) (map advance (take i ?ps')) @ drop i ?ps'"
      using l by (rule Suc.IH)
    also have "take i ?ps' = take i ps" using i by simp
    also have "drop i ?ps' = drop (Suc i) ps" using i by simp
    finally show ?thesis using True t by simp
  next
    case False
    let ?ps' = "ps[i := ?p]"
    have l: "i \<le> length ?ps'" using i by simp
    have "sweep dw dh (Suc i) ps = sweep dw dh i ?ps'" using False by simp
    also have "\<dots> = filter (\<lambda>q. \<not> expired dw dh q) (map advance (take i ?ps')) @ drop i ?ps'"
      using l by (rule Suc.IH)
    also have "take i ?ps' = take i ps" by simp
    also have "drop i ?ps' = ?p # drop (Suc i) ps" using i by (simp add: drop_update_cancel Cons_nth_drop_Suc[symmetric] upd_conv_take_nth_drop)
    finally show ?thesis using False t by simp
  qed
qed

lemma spawn_appends:
  "\<exists>new. spawn cap n mk rnd j ps = ps @ new \<and> (\<forall>q \<in> set new. \<exists>r. q = mk r)"
proof (induction n arbitrary: j ps)
  case 0
  show ?case by simp
next
  case (Suc n)
  show ?case
  proof (cases "length ps < cap")
    case True
    from Suc[of "Suc j" "ps @ [mk (rnd j)]"] obtain new where
      "spawn cap n mk rnd (Suc j) (ps @ [mk (rnd j)]) = (ps @ [mk (rnd j)]) @ new"
      "\<forall>q \<in> set new. \<exists>r. q = mk r" by blast
    with True show ?thesis by (intro exI[where x="mk (rnd j) # new"]) auto
  next
    case False
    with Suc[of "Suc j" ps] show ?thesis by simp
  qed
qed

lemma createParticle_life: "life (createParticle dw dh mn mx ls bs I r) = 0"
  by (simp add: createParticle_def Let_def)

lemma updateParticles_char:
  "\<exists>new. updateParticles dw dh I rnd (Particle ps hu cnt mx mn ls bs) =
            Particle (filter (\<lambda>q. \<not> expired dw dh q) (map advance ps) @ new) hu cnt mx mn ls bs
          \<and> (\<forall>q \<in> set new. life q = 0)"
proof -
  let ?ps1 = "filter (\<lambda>q. \<not> expired dw dh q) (map advance ps)"
  have s: "sweep dw dh (length ps) ps = ?ps1" using sweep_filter[of "length ps" ps dw dh] by simp
  from spawn_appends[of cnt "nat \<lfloor>real cnt * I * (2 / 10)\<rfloor>"
        "createParticle dw dh mn mx ls bs I" rnd 0 ?ps1]
  obtain new where n: "spawn cnt (nat \<lfloor>real cnt * I * (2 / 10)\<rfloor>)
        (createParticle dw dh mn mx ls bs I) rnd 0 ?ps1 = ?ps1 @ new"
    "\<forall>q \<in> set new. \<exists>r. q = createParticle dw dh mn mx ls bs I r" by blast
  have "\<forall>q \<in> set new. life q = 0" using n(2) createParticle_life by fastforce
  with s n(1) show ?thesis by (intro exI[where x=new]) (simp add: updateParticles_def Let_def)
qed


lemma filter_survivors:
  "map (advance ^^ k) (filter (survives dw dh k) (filter (\<lambda>q. \<not> expired dw dh q) (map advance ps)))
     = map (advance ^^ Suc k) (filter (survives dw dh (Suc k)) ps)"
  by (induction ps) (simp_all add: funpow_swap1)

lemma advance_keeps:
  "life ((advance ^^ j) p) = life p + j \<and> maxLife ((advance ^^ j) p) = maxLife p
   \<and> psize ((advance ^^ j) p) = psize p"
  by (induction j) (simp_all add: advance_def)

lemma expired_iff:
  "expired dw dh q \<longleftrightarrow> \<not> in_bounds dw dh q \<or> real (life q) > maxLife q"
  by (auto simp: expired_def in_bounds_def)

lemma survives_iff:
  "survives dw dh k p \<longleftrightarrow> (\<forall>j \<in> {1..k}. \<not> expired dw dh ((advance ^^ j) p))"
proof (induction k arbitrary: p)
  case 0
  show ?case by simp
next
  case (Suc k)
  have "(\<forall>j \<in> {1..Suc k}. \<not> expired dw dh ((advance ^^ j) p)) \<longleftrightarrow>
        \<not> expired dw dh (advance p) \<and> (\<forall>j \<in> {1..k}. \<not> expired dw dh ((advance ^^ j) (advance p)))"
  proof
    assume l: "\<forall>j \<in> {1..Suc k}. \<not> expired dw dh ((advance ^^ j) p)"
    have "\<not> expired dw dh ((advance ^^ j) (advance p))" if "j \<in> {1..k}" for j
    proof -
      have "Suc j \<in> {1..Suc k}" using that by simp
      with l have "\<not> expired dw dh ((advance ^^ Suc j) p)" by blast
      then show ?thesis by (simp add: funpow_swap1)
    qed
    moreover have "\<not> expired dw dh (advance p)" using l by force
    ultimately show "\<not> expired dw dh (advance p) \<and> (\<forall>j \<in> {1..k}. \<not> expired dw dh ((advance ^^ j) (advance p)))"
      by blast
  next
    assume r: "\<not> expired dw dh (advance p) \<and> (\<forall>j \<in> {1..k}. \<not> expired dw dh ((advance ^^ j) (advance p)))"
    show "\<forall>j \<in> {1..Suc k}. \<not> expired dw dh ((advance ^^ j) p)"
    proof
      fix j assume j: "j \<in> {1..Suc k}"
      show "\<not> expired dw dh ((advance ^^ j) p)"
      proof (cases j)
        case 0
        with j show ?thesis by simp
      next
        case (Suc i)
        show ?thesis
        proof (cases i)
          case 0
          with Suc r show ?thesis by simp
        next
          case (Suc i')
          then have "i \<in> {1..k}" using j \<open>j = Suc i\<close> by simp
          with r have "\<not> expired dw dh ((advance ^^ i) (advance p))" by blast
          then show ?thesis using \<open>j = Suc i\<close> by (simp add: funpow_swap1)
        qed
      qed
    qed
  qed
  with Suc.IH[of "advance p"] show ?case by simp
qed

lemma survives_newborn:
  assumes "life p = 0"
  shows "survives dw dh k p \<longleftrightarrow>
           (\<forall>j \<in> {1..k}. in_bounds dw dh ((advance ^^ j) p)) \<and> (k = 0 \<or> real k \<le> maxLife p)"
proof -
  have e: "expired dw dh ((advance ^^ j) p) \<longleftrightarrow>
             \<not> in_bounds dw dh ((advance ^^ j) p) \<or> real j > maxLife p" for j
    using advance_keeps[of j p] assms by (simp add: expired_iff)
  have "(\<forall>j \<in> {1..k}. real j \<le> maxLife p) \<longleftrightarrow> (k = 0 \<or> real k \<le> maxLife p)"
  proof (cases "k = 0")
    case True
    then show ?thesis by simp
  next
    case False
    have "real j \<le> maxLife p" if "real k \<le> maxLife p" "j \<in> {1..k}" for j
    proof -
      have "real j \<le> real k" using that(2) by simp
      with that(1) show ?thesis by linarith
    qed
    moreover have "real k \<le> maxLife p" if "\<forall>j \<in> {1..k}. real j \<le> maxLife p"
      using that False by force
    ultimately show ?thesis using False by blast
  qed
  then show ?thesis unfolding survives_iff e by auto
qed


lemma sample_particle_rests: "(advance ^^ j) sample_particle = sample_particle\<lparr>life := j\<rparr>"
  by (induction j) (simp_all add: sample_particle_def advance_def)

lemma sample_ticks:
  "run_ticks 300 150 [(0, no_draws), (0, no_draws), (0, no_draws)]
       (Particle [sample_particle] 0 100 8 2 100 1)
     = Particle [sample_particle\<lparr>life := 3\<rparr>] 0 100 8 2 100 1"
  "run_ticks 300 150 [(0, no_draws), (0, no_draws), (0, no_draws), (0, no_draws)]
       (Particle [sample_particle] 0 100 8 2 100 1)
     = Particle [] 0 100 8 2 100 1"
  by (simp_all add: updateParticles_def sample_particle_def advance_def expired_def Let_def)

lemma advance_inj: "advance p = advance q \<Longrightarrow> p = q"
  by (cases p; cases q) (simp add: advance_def)

lemma advance_pow_inj: "(advance ^^ k) p = (advance ^^ k) q \<Longrightarrow> p = q"
proof (induction k arbitrary: p q)
  case 0
  then show ?case by simp
next
  case (Suc k)
  then have "(advance ^^ k) (advance p) = (advance ^^ k) (advance q)" by (simp add: funpow_swap1)
  then have "advance p = advance q" by (rule Suc.IH)
  then show ?case by (rule advance_inj)
qed

lemma run_ticks_exact:
  "\<exists>new. run_ticks dw dh ins (Particle ps hu cnt mx mn ls bs) =
           Particle (map (advance ^^ length ins) (filter (survives dw dh (length ins)) ps) @ new)
             hu cnt mx mn ls bs
         \<and> (\<forall>q \<in> set new. life q < length ins)"
proof (induction ins arbitrary: ps)
  case Nil
  have "map (advance ^^ 0) (filter (survives dw dh 0) ps) = ps" by (simp add: map_idI)
  then show ?case by simp
next
  case (Cons a ins)
  obtain I rnd where a: "a = (I, rnd)" by (cases a)
  let ?k = "length ins"
  let ?ps1 = "filter (\<lambda>q. \<not> expired dw dh q) (map advance ps)"
  from updateParticles_char[of dw dh I rnd ps hu cnt mx mn ls bs] obtain new1 where
    u: "updateParticles dw dh I rnd (Particle ps hu cnt mx mn ls bs) =
          Particle (?ps1 @ new1) hu cnt mx mn ls bs"
    and n1: "\<forall>q \<in> set new1. life q = 0" by blast
  from Cons.IH[of "?ps1 @ new1"] obtain new2 where
    r: "run_ticks dw dh ins (Particle (?ps1 @ new1) hu cnt mx mn ls bs) =
          Particle (map (advance ^^ ?k) (filter (survives dw dh ?k) (?ps1 @ new1)) @ new2)
            hu cnt mx mn ls bs"
    and n2: "\<forall>q \<in> set new2. life q < ?k" by blast
  let ?new = "map (advance ^^ ?k) (filter (survives dw dh ?k) new1) @ new2"
  have eq: "map (advance ^^ ?k) (filter (survives dw dh ?k) (?ps1 @ new1)) @ new2 =
          map (advance ^^ Suc ?k) (filter (survives dw dh (Suc ?k)) ps) @ ?new"
    using filter_survivors[of ?k dw dh ps] by simp
  have len: "length (a # ins) = Suc ?k" by simp
  have "run_ticks dw dh (a # ins) (Particle ps hu cnt mx mn ls bs) =
          run_ticks dw dh ins (updateParticles dw dh I rnd (Particle ps hu cnt mx mn ls bs))"
    unfolding a by simp
  also have "\<dots> = Particle (map (advance ^^ ?k) (filter (survives dw dh ?k) (?ps1 @ new1)) @ new2)
            hu cnt mx mn ls bs"
    unfolding u by (rule r)
  finally have e: "run_ticks dw dh (a # ins) (Particle ps hu cnt mx mn ls bs) =
      Particle (map (advance ^^ Suc ?k) (filter (survives dw dh (Suc ?k)) ps) @ ?new)
        hu cnt mx mn ls bs"
    unfolding eq .
  have "life q < Suc ?k" if "q \<in> set ?new" for q
  proof -
    from that consider p where "p \<in> set new1" "q = (advance ^^ ?k) p" | "q \<in> set new2" by auto
    then show ?thesis
    proof cases
      case 1
      then show ?thesis using n1 advance_keeps[of ?k p] by simp
    next
      case 2
      then show ?thesis using n2 by (simp add: less_Suc_eq)
    qed
  qed
  with e show ?case unfolding len by blast
qed

lemma present_iff_survives:
  assumes "p \<in> set ps"
  shows "(advance ^^ length ins) p
           \<in> set (particles (run_ticks dw dh ins (Particle ps hu cnt mx mn ls bs)))
         \<longleftrightarrow> survives dw dh (length ins) p"
proof -
  let ?k = "length ins"
  from run_ticks_exact[of dw dh ins ps hu cnt mx mn ls bs] obtain new where
    e: "run_ticks dw dh ins (Particle ps hu cnt mx mn ls bs) =
          Particle (map (advance ^^ ?k) (filter (survives dw dh ?k) ps) @ new) hu cnt mx mn ls bs"
    and n: "\<forall>q \<in> set new. life q < ?k" by blast
  have old: "(advance ^^ ?k) p \<notin> set new"
  proof
    assume "(advance ^^ ?k) p \<in> set new"
    with n have "life ((advance ^^ ?k) p) < ?k" by blast
    then show False using advance_keeps[of ?k p] by simp
  qed
  have "(advance ^^ ?k) p \<in> set (map (advance ^^ ?k) (filter (survives dw dh ?k) ps))
          \<longleftrightarrow> survives dw dh ?k p"
  proof
    assume "(advance ^^ ?k) p \<in> set (map (advance ^^ ?k) (filter (survives dw dh ?k) ps))"
    then obtain q where q: "q \<in> set ps" "survives dw dh ?k q" "(advance ^^ ?k) p = (advance ^^ ?k) q"
      by auto
    from advance_pow_inj[OF q(3)] q(2) show "survives dw dh ?k p" by simp
  next
    assume "survives dw dh ?k p"
    with assms show "(advance ^^ ?k) p \<in> set (map (advance ^^ ?k) (filter (survives dw dh ?k) ps))"
      by simp
  qed
  with old show ?thesis unfolding e by simp
qed


lemma aged_are_survivors:
  "filter (\<lambda>q. length ins \<le> life q)
       (particles (run_ticks dw dh ins (Particle ps hu cnt mx mn ls bs)))
     = map (advance ^^ length ins) (filter (survives dw dh (length ins)) ps)"
proof -
  let ?k = "length ins"
  let ?old = "map (advance ^^ ?k) (filter (survives dw dh ?k) ps)"
  from run_ticks_exact[of dw dh ins ps hu cnt mx mn ls bs] obtain new where
    e: "run_ticks dw dh ins (Particle ps hu cnt mx mn ls bs) = Particle (?old @ new) hu cnt mx mn ls bs"
    and n: "\<forall>q \<in> set new. life q < ?k" by blast
  have "\<forall>q \<in> set ?old. ?k \<le> life q" using advance_keeps by auto
  then have 1: "filter (\<lambda>q. ?k \<le> life q) ?old = ?old" by (simp only: filter_True)
  have "\<forall>q \<in> set new. \<not> ?k \<le> life q" using n by auto
  then have 2: "filter (\<lambda>q. ?k \<le> life q) new = []" by (simp only: filter_False)
  show ?thesis unfolding e by (simp only: strategy.sel filter_append 1 2 append_Nil2)
qed

text \<open>
  C9. After any number of frames the particle set consists of the survivors of the set it
  started from, each moved and aged once per frame and in their order, followed by particles
  spawned meanwhile, which are younger than the number of frames. So the particles at least
  that old are exactly those survivors, and a particle of the start set is present after
  \<open>k\<close> frames exactly when none of the \<open>k\<close> passes found it expired. A particle is created
  with age 0, and its age after \<open>k\<close> frames is \<open>k\<close>. Such a particle survives \<open>k\<close> frames
  exactly when after each of them its position was within the surface extended by its radius
  and \<open>k\<close> does not exceed its maximal age: with a maximal age \<open>n\<close> and a position that
  stays within those bounds, it is present at age \<open>n\<close> and removed at age \<open>n + 1\<close>.
\<close>

theorem particle_lifecycle:
  "(\<exists>new. run_ticks dw dh ins (Particle ps hu cnt mx mn ls bs) =
            Particle (map (advance ^^ length ins) (filter (survives dw dh (length ins)) ps) @ new)
              hu cnt mx mn ls bs
          \<and> (\<forall>q \<in> set new. life q < length ins))
   \<and> filter (\<lambda>q. length ins \<le> life q)
         (particles (run_ticks dw dh ins (Particle ps hu cnt mx mn ls bs)))
       = map (advance ^^ length ins) (filter (survives dw dh (length ins)) ps)
   \<and> (\<forall>p \<in> set ps.
         (advance ^^ length ins) p
            \<in> set (particles (run_ticks dw dh ins (Particle ps hu cnt mx mn ls bs)))
         \<longleftrightarrow> survives dw dh (length ins) p)
   \<and> life (createParticle dw dh mn mx ls bs I r) = 0
   \<and> (\<forall>p k. life p = 0 \<longrightarrow>
          life ((advance ^^ k) p) = k \<and>
          (survives dw dh k p \<longleftrightarrow>
             (\<forall>j \<in> {1..k}. in_bounds dw dh ((advance ^^ j) p)) \<and> (k = 0 \<or> real k \<le> maxLife p)))
   \<and> (\<forall>p n. life p = 0 \<and> maxLife p = real n \<and>
            (\<forall>j \<in> {1..Suc n}. in_bounds dw dh ((advance ^^ j) p)) \<longrightarrow>
          survives dw dh n p \<and> \<not> survives dw dh (Suc n) p)"
proof -
  have 3: "life ((advance ^^ k) p) = k \<and>
          (survives dw dh k p \<longleftrightarrow>
             (\<forall>j \<in> {1..k}. in_bounds dw dh ((advance ^^ j) p)) \<and> (k = 0 \<or> real k \<le> maxLife p))"
    if "life p = 0" for p k
    using advance_keeps[of k p] survives_newborn[OF that, of dw dh k] that by simp
  have 4: "survives dw dh n p \<and> \<not> survives dw dh (Suc n) p"
    if a: "life p = 0 \<and> maxLife p = real n \<and> (\<forall>j \<in> {1..Suc n}. in_bounds dw dh ((advance ^^ j) p))"
    for p n
  proof -
    have "\<forall>j \<in> {1..n}. in_bounds dw dh ((advance ^^ j) p)" using a by simp
    then have "survives dw dh n p" using a survives_newborn[of p dw dh n] by simp
    moreover have "\<not> real (Suc n) \<le> maxLife p" using a by simp
    then have "\<not> survives dw dh (Suc n) p" using a survives_newborn[of p dw dh "Suc n"] by blast
    ultimately show ?thesis by blast
  qed
  have 5: "\<forall>p \<in> set ps.
         (advance ^^ length ins) p
            \<in> set (particles (run_ticks dw dh ins (Particle ps hu cnt mx mn ls bs)))
         \<longleftrightarrow> survives dw dh (length ins) p"
    using present_iff_survives by blast
  from run_ticks_exact[of dw dh ins ps hu cnt mx mn ls bs]
    aged_are_survivors[of ins dw dh ps hu cnt mx mn ls bs]
    createParticle_life[of dw dh mn mx ls bs I r] 3 4 5
  show ?thesis by blast
qed

theorem particle_lifecycle_witness:
  "sample_particle \<in> set [sample_particle] \<and>
   life sample_particle = 0 \<and> maxLife sample_particle = real 3 \<and>
   (advance ^^ 3) sample_particle
     \<in> set (particles (run_ticks 300 150 [(0, no_draws), (0, no_draws), (0, no_draws)]
                         (Particle [sample_particle] 0 100 8 2 100 1))) \<and>
   (advance ^^ 4) sample_particle
     \<notin> set (particles (run_ticks 300 150 [(0, no_draws), (0, no_draws), (0, no_draws), (0, no_draws)]
                         (Particle [sample_particle] 0 100 8 2 100 1))) \<and>
   run_ticks 300 150 [(0, no_draws), (0, no_draws), (0, no_draws)]
       (Particle [sample_particle] 0 100 8 2 100 1)
     = Particle [sample_particle\<lparr>life := 3\<rparr>] 0 100 8 2 100 1 \<and>
   run_ticks 300 150 [(0, no_draws), (0, no_draws), (0, no_draws), (0, no_draws)]
       (Particle [sample_particle] 0 100 8 2 100 1)
     = Particle [] 0 100 8 2 100 1"
proof -
  let ?t3 = "[(0 :: real, no_draws), (0, no_draws), (0, no_draws)]"
  let ?t4 = "[(0 :: real, no_draws), (0, no_draws), (0, no_draws), (0, no_draws)]"
  have m: "sample_particle \<in> set [sample_particle]" by simp
  have a: "life sample_particle = 0 \<and> maxLife sample_particle = real 3"
    by (simp add: sample_particle_def)
  have b: "\<forall>j \<in> {1..Suc 3}. in_bounds 300 150 ((advance ^^ j) sample_particle)"
    unfolding sample_particle_rests by (simp add: in_bounds_def sample_particle_def)
  have l3: "length ?t3 = 3" and l4: "length ?t4 = Suc 3" by simp_all
  have s: "survives 300 150 3 sample_particle \<and> \<not> survives 300 150 (Suc 3) sample_particle"
    using particle_lifecycle[of 300 150 ?t3 "[sample_particle]" 0 100 8 2 100 1 0 "no_draws 0"]
      a b by blast
  have p3: "(advance ^^ length ?t3) sample_particle
        \<in> set (particles (run_ticks 300 150 ?t3 (Particle [sample_particle] 0 100 8 2 100 1)))
      \<longleftrightarrow> survives 300 150 (length ?t3) sample_particle"
    using particle_lifecycle[of 300 150 ?t3 "[sample_particle]" 0 100 8 2 100 1 0 "no_draws 0"]
      m by blast
  have p4: "(advance ^^ length ?t4) sample_particle
        \<in> set (particles (run_ticks 300 150 ?t4 (Particle [sample_particle] 0 100 8 2 100 1)))
      \<longleftrightarrow> survives 300 150 (length ?t4) sample_particle"
    using particle_lifecycle[of 300 150 ?t4 "[sample_particle]" 0 100 8 2 100 1 0 "no_draws 0"]
      m by blast
  have f: "(4 :: nat) = Suc 3" by simp
  have "(advance ^^ 3) sample_particle
     \<in> set (particles (run_ticks 300 150 ?t3 (Particle [sample_particle] 0 100 8 2 100 1)))"
    using p3 s unfolding l3 by blast
  moreover have "(advance ^^ 4) sample_particle
     \<notin> set (particles (run_ticks 300 150 ?t4 (Particle [sample_particle] 0 100 8 2 100 1)))"
    using p4 s unfolding l4 f by blast
  ultimately show ?thesis using m a sample_ticks by blast
qed

end
